theory Spec2Isabelle
  imports Main
begin

section \<open>A structured logger: levels, sanitization, formatting, emission\<close>

text \<open>
  The development embeds \<^verbatim>\<open>src/logger.ts\<close>: the class \<^verbatim>\<open>Logger\<close> with its
  constructor, \<^verbatim>\<open>parseLogLevel\<close>, \<^verbatim>\<open>getCallerInfo\<close>, \<^verbatim>\<open>formatMessage\<close>,
  \<^verbatim>\<open>sanitizeObject\<close>, \<^verbatim>\<open>createLogMethod\<close>, \<^verbatim>\<open>noOp\<close> and \<^verbatim>\<open>logComplexError\<close>.

  What the code takes from its platform is made explicit:
  \<^item> JavaScript values are a datatype; objects, arrays and Error instances live in a
    store (a list indexed by address), so that identity, sharing and cycles are the
    store's, and \<^verbatim>\<open>WeakSet\<close> is a set of addresses;
  \<^item> the environment variable and the two console streams are a record \<open>world\<close>;
    the clock and the stack trace captured by \<^verbatim>\<open>new Error()\<close> are a record \<open>ctx\<close>
    given to each call;
  \<^item> an exception is a value \<open>Inl\<close> of a sum type.

  Limits of the model, which every statement below inherits: the primitive values
  are \<^verbatim>\<open>undefined\<close>, \<^verbatim>\<open>null\<close>, booleans, numbers and strings; numbers are integers
  printed in decimal; characters are 8-bit; properties are data properties (no
  accessors, no proxies) and a function has the \<^verbatim>\<open>toString\<close> it inherits; arrays are
  dense; property lists are kept in the order in which they were inserted (JavaScript
  would move integer-like keys to the front); the depth of the call stack is
  unbounded.
\<close>

subsection \<open>Severity levels\<close>

datatype LogLevel = ERROR | WARN | INFO | DEBUG

text \<open>The numeric value of each member of the enum.\<close>

fun rank :: "LogLevel \<Rightarrow> nat" where
  "rank ERROR = 0"
| "rank WARN = 1"
| "rank INFO = 2"
| "rank DEBUG = 3"

text \<open>The reverse mapping \<^verbatim>\<open>LogLevel[level]\<close> of a numeric enum.\<close>

fun LogLevel_name :: "LogLevel \<Rightarrow> string" where
  "LogLevel_name ERROR = ''ERROR''"
| "LogLevel_name WARN = ''WARN''"
| "LogLevel_name INFO = ''INFO''"
| "LogLevel_name DEBUG = ''DEBUG''"

text \<open>
  \<^verbatim>\<open>String.prototype.toLowerCase\<close> on 8-bit characters: the letters A to Z are
  mapped, every other character is kept.
\<close>

definition lower_char :: "char \<Rightarrow> char" where
  "lower_char c =
     (if 65 \<le> (of_char c :: nat) \<and> (of_char c :: nat) \<le> 90
      then char_of ((of_char c :: nat) + 32) else c)"

definition toLowerCase :: "string \<Rightarrow> string" where
  "toLowerCase s = map lower_char s"

text \<open>
  \<^verbatim>\<open>switch (logLevel?.toLowerCase())\<close>: an absent variable is \<open>None\<close>, for which the
  optional chain gives \<^verbatim>\<open>undefined\<close> and the \<^verbatim>\<open>default\<close> branch.
\<close>

definition parseLogLevel :: "string option \<Rightarrow> LogLevel" where
  "parseLogLevel logLevel =
     (case logLevel of
        None \<Rightarrow> INFO
      | Some s \<Rightarrow>
          (if toLowerCase s = ''error'' then ERROR
           else if toLowerCase s = ''warn'' then WARN
           else if toLowerCase s = ''info'' then INFO
           else if toLowerCase s = ''debug'' then DEBUG
           else INFO))"

subsection \<open>Values and the store\<close>

text \<open>
  A function value carries its source text, which is all that \<^verbatim>\<open>toString\<close> reads.
  \<open>Ref a\<close> is the object at address \<open>a\<close> of the store.
\<close>

datatype jsval =
    Undefined
  | Null
  | Bool bool
  | Num int
  | Str string
  | Fun string
  | Ref nat

datatype pkey = StringKey string | SymbolKey string

datatype property = Property (pkey: pkey) (enumerable: bool) (pval: jsval)

text \<open>
  An array holds its elements, an object its own properties in enumeration order, an
  Error instance what reading \<^verbatim>\<open>.name\<close>, \<^verbatim>\<open>.message\<close> and \<^verbatim>\<open>.stack\<close> gives.
\<close>

datatype obj =
    Arr "jsval list"
  | Obj "property list"
  | Err jsval jsval jsval

type_synonym heap = "obj list"

definition lookup :: "heap \<Rightarrow> nat \<Rightarrow> obj option" where
  "lookup h a = (if a < length h then Some (h ! a) else None)"

text \<open>
  What \<^verbatim>\<open>sanitizeObject\<close> returns. The objects and arrays it builds are new and
  referenced once, so they are a tree; a \<open>Leaf\<close> holds a value that was returned as it
  was found, which for a \<open>Ref\<close> still points into the store of the input.
\<close>

datatype out =
    Leaf jsval
  | OArr "out list"
  | OObj "(string \<times> out) list"

subsection \<open>Sanitization\<close>

text \<open>\<^verbatim>\<open>Object.entries\<close>: the own enumerable string-keyed properties, in order.\<close>

fun Object_entries :: "property list \<Rightarrow> (string \<times> jsval) list" where
  "Object_entries [] = []"
| "Object_entries (Property (StringKey k) True v # ps) = (k, v) # Object_entries ps"
| "Object_entries (p # ps) = Object_entries ps"

text \<open>Defining or overwriting a data property of an ordinary object.\<close>

fun put :: "(string \<times> out) list \<Rightarrow> string \<Rightarrow> out \<Rightarrow> (string \<times> out) list" where
  "put [] k x = [(k, x)]"
| "put ((k', x') # r) k x = (if k' = k then (k, x) # r else (k', x') # put r k x)"

text \<open>
  The assignment \<^verbatim>\<open>result[key] = x\<close> on an object whose prototype is
  \<^verbatim>\<open>Object.prototype\<close>: the key \<^verbatim>\<open>__proto__\<close> reaches the inherited setter, which
  creates no own property.
\<close>

definition assign :: "(string \<times> out) list \<Rightarrow> string \<Rightarrow> out \<Rightarrow> (string \<times> out) list" where
  "assign r k x = (if k = ''__proto__'' then r else put r k x)"

text \<open>The number of addresses of the store that are not yet in \<^verbatim>\<open>seen\<close>.\<close>

definition unseen :: "heap \<Rightarrow> nat set \<Rightarrow> nat" where
  "unseen h seen = card ({..<length h} - seen)"

text \<open>
  The closure \<^verbatim>\<open>sanitizeValue\<close> with the set \<^verbatim>\<open>seen\<close> it mutates passed in and
  returned. \<open>sanitizeMap\<close> is \<^verbatim>\<open>value.map(sanitizeValue)\<close>, \<open>sanitizeEntries\<close> the
  loop over \<^verbatim>\<open>Object.entries(value)\<close> that fills \<^verbatim>\<open>result\<close>. The tests are taken in
  the order of the source: function, Error instance, object. An address outside the
  store denotes no object and falls through to the last \<^verbatim>\<open>return value\<close>.

  Termination: a call on an unseen object marks it, and the store has finitely many
  addresses; between two marks the lists get shorter. The set returned by a call
  contains the one it was given, which is what the calls after it in a loop need.
\<close>

function (sequential) sanitizeValue :: "heap \<Rightarrow> nat set \<Rightarrow> jsval \<Rightarrow> nat set \<times> out"
  and sanitizeMap :: "heap \<Rightarrow> nat set \<Rightarrow> jsval list \<Rightarrow> nat set \<times> out list"
  and sanitizeEntries ::
    "heap \<Rightarrow> nat set \<Rightarrow> (string \<times> jsval) list \<Rightarrow> (string \<times> out) list
       \<Rightarrow> nat set \<times> (string \<times> out) list"
where
  "sanitizeValue h seen (Fun src) = (seen, Leaf (Str src))"
| "sanitizeValue h seen (Ref a) =
     (case lookup h a of
        None \<Rightarrow> (seen, Leaf (Ref a))
      | Some (Err n m s) \<Rightarrow>
          (seen, OObj [(''name'', Leaf n), (''message'', Leaf m), (''stack'', Leaf s)])
      | Some (Arr vs) \<Rightarrow>
          (if a \<in> seen then (seen, Leaf (Str ''[Circular]''))
           else (case sanitizeMap h (insert a seen) vs of (seen', xs) \<Rightarrow> (seen', OArr xs)))
      | Some (Obj ps) \<Rightarrow>
          (if a \<in> seen then (seen, Leaf (Str ''[Circular]''))
           else (case sanitizeEntries h (insert a seen) (Object_entries ps) [] of
                   (seen', r) \<Rightarrow> (seen', OObj r))))"
| "sanitizeValue h seen v = (seen, Leaf v)"
| "sanitizeMap h seen [] = (seen, [])"
| "sanitizeMap h seen (v # vs) =
     (case sanitizeValue h seen v of
        (seen1, x) \<Rightarrow>
          (case sanitizeMap h seen1 vs of (seen2, xs) \<Rightarrow> (seen2, x # xs)))"
| "sanitizeEntries h seen [] result = (seen, result)"
| "sanitizeEntries h seen ((k, v) # es) result =
     (case sanitizeValue h seen v of
        (seen1, x) \<Rightarrow> sanitizeEntries h seen1 es (assign result k x))"
  by pat_completeness auto

termination
proof -
  have grows:
    "sanitizeValue_sanitizeMap_sanitizeEntries_dom (Inl (h, s, w)) \<Longrightarrow>
       s \<subseteq> fst (sanitizeValue h s w)"
    "sanitizeValue_sanitizeMap_sanitizeEntries_dom (Inr (Inl (h, s, ws))) \<Longrightarrow>
       s \<subseteq> fst (sanitizeMap h s ws)"
    "sanitizeValue_sanitizeMap_sanitizeEntries_dom (Inr (Inr (h, s, es, r))) \<Longrightarrow>
       s \<subseteq> fst (sanitizeEntries h s es r)" for h s w ws es r
    by (induct rule: sanitizeValue_sanitizeMap_sanitizeEntries.pinduct)
       (auto simp: sanitizeValue.psimps sanitizeMap.psimps sanitizeEntries.psimps
             split: option.splits obj.splits prod.splits, blast+)
  have marked: "unseen h (insert a seen) < unseen h seen"
    if "lookup h a = Some ob" "a \<notin> seen" for h a seen ob
  proof -
    from that have "{..<length h} - insert a seen \<subset> {..<length h} - seen"
      by (auto simp: lookup_def split: if_splits)
    then show ?thesis
      unfolding unseen_def by (intro psubset_card_mono) auto
  qed
  have kept: "unseen h seen' \<le> unseen h seen" if "seen \<subseteq> seen'" for h seen seen'
    using that unfolding unseen_def by (intro card_mono) auto
  show ?thesis
  proof (relation "inv_image (less_than <*lex*> less_than) (\<lambda>t. case t of
             Inl (h, seen, v) \<Rightarrow> (unseen h seen, 0)
           | Inr (Inl (h, seen, vs)) \<Rightarrow> (unseen h seen, Suc (length vs))
           | Inr (Inr (h, seen, es, r)) \<Rightarrow> (unseen h seen, Suc (length es)))", goal_cases)
    case 1
    show ?case by (simp add: wf_lex_prod)
  next
    case (2 h seen a ob vs)
    with marked [of h a ob seen] show ?case by simp
  next
    case (3 h seen a ob ps)
    with marked [of h a ob seen] show ?case by simp
  next
    case (4 h seen v vs)
    show ?case by simp
  next
    case (5 h seen v vs seen1 x)
    with grows(1) [of h seen v] have "seen \<subseteq> seen1" by (metis fst_conv)
    from kept [OF this, of h] show ?case by auto
  next
    case (6 h seen k v es result)
    show ?case by simp
  next
    case (7 h seen k v es result seen1 x)
    with grows(1) [of h seen v] have "seen \<subseteq> seen1" by (metis fst_conv)
    from kept [OF this, of h] show ?case by auto
  qed
qed

text \<open>\<^verbatim>\<open>sanitizeObject\<close>: a new, empty \<^verbatim>\<open>seen\<close> for each top-level call.\<close>

definition sanitizeObject :: "heap \<Rightarrow> jsval \<Rightarrow> out" where
  "sanitizeObject h obj = snd (sanitizeValue h {} obj)"

subsection \<open>Strings\<close>

definition newline :: char where
  "newline = CHR 0x0A"

definition dquote :: char where
  "dquote = CHR 0x22"

definition backslash :: char where
  "backslash = CHR 0x5C"


text \<open>\<^verbatim>\<open>s.split(d)\<close> for a separator of one character.\<close>

fun str_split :: "char \<Rightarrow> string \<Rightarrow> string list" where
  "str_split d [] = [] # []"
| "str_split d (c # s) =
     (if c = d then [] # str_split d s
      else (case str_split d s of [] \<Rightarrow> [c] # [] | x # xs \<Rightarrow> (c # x) # xs))"

text \<open>\<^verbatim>\<open>s.replace(/\n/g, ' ')\<close>.\<close>

definition replace_newlines :: "string \<Rightarrow> string" where
  "replace_newlines s = map (\<lambda>c. if c = newline then CHR '' '' else c) s"

fun join :: "string \<Rightarrow> string list \<Rightarrow> string" where
  "join sep [] = []"
| "join sep [x] = x"
| "join sep (x # y # ys) = x @ sep @ join sep (y # ys)"

text \<open>Decimal digits of a natural number, and \<^verbatim>\<open>Number.prototype.toString\<close> on integers.\<close>

fun digits :: "nat \<Rightarrow> string" where
  "digits n =
     (if n < 10 then [char_of (48 + n)]
      else digits (n div 10) @ [char_of (48 + n mod 10)])"

declare digits.simps [simp del]

definition Number_toString :: "int \<Rightarrow> string" where
  "Number_toString i = (if i < 0 then CHR ''-'' # digits (nat (- i)) else digits (nat i))"

subsection \<open>\<^verbatim>\<open>JSON.stringify\<close>\<close>

text \<open>
  \<open>TypeError\<close> is the JavaScript exception. \<open>Unmodelled\<close> marks a step of the
  platform that this development does not describe: converting an object of the store
  to text, which \<^verbatim>\<open>JSON.stringify\<close> does for a reference that \<^verbatim>\<open>sanitizeObject\<close> left
  as it was, and a template literal for a reference it is given. No statement below is
  about such a run.
\<close>

datatype failure = TypeError | Unmodelled

definition hex_digit :: "nat \<Rightarrow> char" where
  "hex_digit n = (if n < 10 then char_of (48 + n) else char_of (87 + n))"

text \<open>\<^verbatim>\<open>QuoteJSONString\<close>: the escapes of the ECMAScript specification.\<close>

definition escape_char :: "char \<Rightarrow> string" where
  "escape_char c =
     (let n = (of_char c :: nat) in
      if n = 34 then [backslash, dquote]
      else if n = 92 then [backslash, backslash]
      else if n = 8 then [backslash, CHR ''b'']
      else if n = 12 then [backslash, CHR ''f'']
      else if n = 10 then [backslash, CHR ''n'']
      else if n = 13 then [backslash, CHR ''r'']
      else if n = 9 then [backslash, CHR ''t'']
      else if n < 32 then
        [backslash, CHR ''u'', CHR ''0'', CHR ''0'', hex_digit (n div 16), hex_digit (n mod 16)]
      else [c])"

definition QuoteJSONString :: "string \<Rightarrow> string" where
  "QuoteJSONString s = dquote # concat (map escape_char s) @ [dquote]"

text \<open>
  \<^verbatim>\<open>JSON.stringify\<close> without indentation on a sanitized value. The result \<open>None\<close> is
  \<^verbatim>\<open>undefined\<close>: such a member of an object is left out, such an element of an array
  is printed as \<^verbatim>\<open>null\<close>.
\<close>

fun JSON_stringify :: "out \<Rightarrow> failure + string option"
  and stringify_elements :: "out list \<Rightarrow> failure + string list"
  and stringify_members :: "(string \<times> out) list \<Rightarrow> failure + string list"
where
  "JSON_stringify (Leaf Undefined) = Inr None"
| "JSON_stringify (Leaf Null) = Inr (Some ''null'')"
| "JSON_stringify (Leaf (Bool b)) = Inr (Some (if b then ''true'' else ''false''))"
| "JSON_stringify (Leaf (Num n)) = Inr (Some (Number_toString n))"
| "JSON_stringify (Leaf (Str s)) = Inr (Some (QuoteJSONString s))"
| "JSON_stringify (Leaf (Fun src)) = Inr None"
| "JSON_stringify (Leaf (Ref a)) = Inl Unmodelled"
| "JSON_stringify (OArr xs) =
     (case stringify_elements xs of
        Inl e \<Rightarrow> Inl e
      | Inr ss \<Rightarrow> Inr (Some (''['' @ join '','' ss @ '']'')))"
| "JSON_stringify (OObj kvs) =
     (case stringify_members kvs of
        Inl e \<Rightarrow> Inl e
      | Inr ss \<Rightarrow> Inr (Some (''{'' @ join '','' ss @ ''}'')))"
| "stringify_elements [] = Inr []"
| "stringify_elements (x # xs) =
     (case JSON_stringify x of
        Inl e \<Rightarrow> Inl e
      | Inr r \<Rightarrow>
          (case stringify_elements xs of
             Inl e \<Rightarrow> Inl e
           | Inr ss \<Rightarrow> Inr ((case r of None \<Rightarrow> ''null'' | Some t \<Rightarrow> t) # ss)))"
| "stringify_members [] = Inr []"
| "stringify_members ((k, x) # kvs) =
     (case JSON_stringify x of
        Inl e \<Rightarrow> Inl e
      | Inr r \<Rightarrow>
          (case stringify_members kvs of
             Inl e \<Rightarrow> Inl e
           | Inr ss \<Rightarrow>
               Inr (case r of
                      None \<Rightarrow> ss
                    | Some t \<Rightarrow> (QuoteJSONString k @ '':'' @ t) # ss)))"

text \<open>
  \<^verbatim>\<open>ToString\<close>, as a template literal applies it to a substitution.
\<close>

fun ToString :: "jsval \<Rightarrow> failure + string" where
  "ToString Undefined = Inr ''undefined''"
| "ToString Null = Inr ''null''"
| "ToString (Bool b) = Inr (if b then ''true'' else ''false'')"
| "ToString (Num n) = Inr (Number_toString n)"
| "ToString (Str s) = Inr s"
| "ToString (Fun src) = Inr src"
| "ToString (Ref a) = Inl Unmodelled"

subsection \<open>The logger\<close>

text \<open>
  The process: the variable \<^verbatim>\<open>LOG_LEVEL\<close> of its environment, and the lines written
  so far by \<^verbatim>\<open>console.log\<close> and \<^verbatim>\<open>console.error\<close>.
\<close>

record world =
  LOG_LEVEL :: "string option"
  stdout :: "string list"
  stderr :: "string list"

text \<open>
  What a logging call reads from the platform: \<^verbatim>\<open>new Date().toISOString()\<close> and the
  \<^verbatim>\<open>stack\<close> of the \<^verbatim>\<open>new Error()\<close> of \<^verbatim>\<open>getCallerInfo\<close>.
\<close>

record ctx =
  now :: string
  trace :: "string option"

text \<open>
  A value of type \<^verbatim>\<open>LogMethod\<close> is one of two functions: the closure that
  \<^verbatim>\<open>createLogMethod(level)\<close> returns, or \<^verbatim>\<open>this.noOp\<close>.
\<close>

datatype LogMethod = Closure LogLevel | NoOp

record logger =
  logLevel :: LogLevel
  microservice :: string
  error :: LogMethod
  warn :: LogMethod
  info :: LogMethod
  debug :: LogMethod

definition console_log :: "string option \<Rightarrow> world \<Rightarrow> world" where
  "console_log output w =
     w\<lparr>stdout := stdout w @ [case output of None \<Rightarrow> ''undefined'' | Some t \<Rightarrow> t]\<rparr>"

definition console_error :: "string option \<Rightarrow> world \<Rightarrow> world" where
  "console_error output w =
     w\<lparr>stderr := stderr w @ [case output of None \<Rightarrow> ''undefined'' | Some t \<Rightarrow> t]\<rparr>"

text \<open>The characters of the class \<^verbatim>\<open>[\w.]\<close>.\<close>

definition name_char :: "char \<Rightarrow> bool" where
  "name_char c =
     (let n = (of_char c :: nat) in
      (48 \<le> n \<and> n \<le> 57) \<or> (65 \<le> n \<and> n \<le> 90) \<or> (97 \<le> n \<and> n \<le> 122)
      \<or> n = 95 \<or> n = 46)"

text \<open>
  \<^verbatim>\<open>caller.match(/at ([\w.]+)/)\<close>: the leftmost position where \<^verbatim>\<open>at \<close> is followed by
  a character of the class, and there the longest run of such characters.
\<close>

fun match_at :: "string \<Rightarrow> string option" where
  "match_at [] = None"
| "match_at (c # s) =
     (if take 3 (c # s) = ''at '' \<and> takeWhile name_char (drop 3 (c # s)) \<noteq> []
      then Some (takeWhile name_char (drop 3 (c # s)))
      else match_at s)"

text \<open>The loop of \<^verbatim>\<open>getCallerInfo\<close> over the lines from index 4 on.\<close>

fun scan_frames :: "string list \<Rightarrow> string" where
  "scan_frames [] = ''unknown''"
| "scan_frames (caller # rest) =
     (if caller \<noteq> [] then
        (case match_at caller of
           Some fullName \<Rightarrow> last (str_split (CHR ''.'') fullName)
         | None \<Rightarrow> scan_frames rest)
      else scan_frames rest)"

definition getCallerInfo :: "string option \<Rightarrow> string" where
  "getCallerInfo stack =
     (case stack of
        None \<Rightarrow> ''unknown''
      | Some s \<Rightarrow> scan_frames (drop 4 (str_split newline s)))"

text \<open>
  The own enumerable properties that \<^verbatim>\<open>Object.assign\<close> reads from its source: the
  members of an object, the elements of an array and the characters of a string under
  their indices, nothing for any other value.
\<close>

definition index_keys :: "nat \<Rightarrow> string list" where
  "index_keys n = map digits [0..<n]"

fun own_enumerable :: "out \<Rightarrow> (string \<times> out) list" where
  "own_enumerable (OObj kvs) = kvs"
| "own_enumerable (OArr xs) = zip (index_keys (length xs)) xs"
| "own_enumerable (Leaf (Str s)) = zip (index_keys (length s)) (map (\<lambda>c. Leaf (Str [c])) s)"
| "own_enumerable (Leaf v) = []"

definition Object_assign :: "(string \<times> out) list \<Rightarrow> out \<Rightarrow> (string \<times> out) list" where
  "Object_assign target source =
     fold (\<lambda>(k, x) t. assign t k x) (own_enumerable source) target"

text \<open>
  \<^verbatim>\<open>formatMessage\<close>. The record \<^verbatim>\<open>logMessage\<close> is the list of its properties; the
  test \<^verbatim>\<open>typeof message === 'string'\<close> is the case \<open>Str\<close>.
\<close>

definition formatMessage ::
  "logger \<Rightarrow> string \<Rightarrow> ctx \<Rightarrow> heap \<Rightarrow> jsval \<Rightarrow> failure + (string \<times> out) list" where
  "formatMessage this level c h message =
     (case (case message of
              Str s \<Rightarrow> Inr (Some s)
            | _ \<Rightarrow> JSON_stringify (sanitizeObject h message)) of
        Inl e \<Rightarrow> Inl e
      | Inr m \<Rightarrow>
          (let logMessage =
                 [(''timestamp'', Leaf (Str (now c))),
                  (''level'', Leaf (Str level)),
                  (''message'', (case m of None \<Rightarrow> Leaf Undefined | Some t \<Rightarrow> Leaf (Str t))),
                  (''microservice'', Leaf (Str (microservice this))),
                  (''caller'', Leaf (Str (getCallerInfo (trace c))))]
           in Inr (case message of
                     Str s \<Rightarrow> logMessage
                   | _ \<Rightarrow> Object_assign logMessage (sanitizeObject h message))))"

text \<open>The closure returned by \<^verbatim>\<open>createLogMethod(level)\<close>, applied to \<open>message\<close>.\<close>

definition createLogMethod ::
  "logger \<Rightarrow> LogLevel \<Rightarrow> ctx \<Rightarrow> heap \<Rightarrow> jsval \<Rightarrow> world \<Rightarrow> failure + world" where
  "createLogMethod this level c h message w =
     (case formatMessage this (LogLevel_name level) c h message of
        Inl e \<Rightarrow> Inl e
      | Inr logMessage \<Rightarrow>
          (case JSON_stringify (OObj logMessage) of
             Inl e \<Rightarrow> Inl e
           | Inr output \<Rightarrow>
               (if rank level \<le> rank ERROR then Inr (console_error output w)
                else Inr (console_log output w))))"

definition noOp :: "world \<Rightarrow> failure + world" where
  "noOp w = Inr w"

text \<open>Calling a value of type \<^verbatim>\<open>LogMethod\<close>.\<close>

fun invoke ::
  "logger \<Rightarrow> LogMethod \<Rightarrow> ctx \<Rightarrow> heap \<Rightarrow> jsval \<Rightarrow> world \<Rightarrow> failure + world" where
  "invoke this (Closure level) c h message w = createLogMethod this level c h message w"
| "invoke this NoOp c h message w = noOp w"

text \<open>The constructor, which reads \<^verbatim>\<open>process.env.LOG_LEVEL\<close>.\<close>

definition Logger :: "string \<Rightarrow> world \<Rightarrow> logger" where
  "Logger name w =
     (let lvl = parseLogLevel (LOG_LEVEL w) in
      \<lparr>logLevel = lvl,
       microservice = name,
       error = (if rank lvl \<ge> rank ERROR then Closure ERROR else NoOp),
       warn = (if rank lvl \<ge> rank WARN then Closure WARN else NoOp),
       info = (if rank lvl \<ge> rank INFO then Closure INFO else NoOp),
       debug = (if rank lvl \<ge> rank DEBUG then Closure DEBUG else NoOp)\<rparr>)"

text \<open>The public method of each severity.\<close>

fun method_of :: "logger \<Rightarrow> LogLevel \<Rightarrow> LogMethod" where
  "method_of this ERROR = error this"
| "method_of this WARN = warn this"
| "method_of this INFO = info this"
| "method_of this DEBUG = debug this"

text \<open>\<^verbatim>\<open>error instanceof Error\<close>, with the three fields that the template reads.\<close>

definition instanceof_Error :: "heap \<Rightarrow> jsval \<Rightarrow> (jsval \<times> jsval \<times> jsval) option" where
  "instanceof_Error h v =
     (case v of
        Ref a \<Rightarrow> (case lookup h a of Some (Err n m s) \<Rightarrow> Some (n, m, s) | _ \<Rightarrow> None)
      | _ \<Rightarrow> None)"

text \<open>
  The string \<^verbatim>\<open>errorMessage\<close> of \<^verbatim>\<open>logComplexError\<close> before the replacement. In the
  second branch \<^verbatim>\<open>JSON.stringify\<close> may return \<^verbatim>\<open>undefined\<close>, on which \<^verbatim>\<open>.replace\<close>
  throws.
\<close>

definition errorMessage_of :: "heap \<Rightarrow> jsval \<Rightarrow> failure + string" where
  "errorMessage_of h err =
     (case instanceof_Error h err of
        Some (n, m, s) \<Rightarrow>
          (case ToString n of
             Inl e \<Rightarrow> Inl e
           | Inr n' \<Rightarrow>
               (case ToString m of
                  Inl e \<Rightarrow> Inl e
                | Inr m' \<Rightarrow>
                    (case ToString s of
                       Inl e \<Rightarrow> Inl e
                     | Inr s' \<Rightarrow> Inr (n' @ '': '' @ m' @ [newline] @ s'))))
      | None \<Rightarrow>
          (case JSON_stringify (sanitizeObject h err) of
             Inl e \<Rightarrow> Inl e
           | Inr None \<Rightarrow> Inl TypeError
           | Inr (Some t) \<Rightarrow> Inr t))"

text \<open>
  \<^verbatim>\<open>logComplexError\<close>. The object literal \<^verbatim>\<open>{ complexError: errorMessage }\<close> is a new
  object, at the first free address of the store.
\<close>

definition logComplexError ::
  "logger \<Rightarrow> ctx \<Rightarrow> heap \<Rightarrow> jsval \<Rightarrow> world \<Rightarrow> failure + world" where
  "logComplexError this c h err w =
     (if rank (logLevel this) \<ge> rank ERROR then
        (case errorMessage_of h err of
           Inl e \<Rightarrow> Inl e
         | Inr errorMessage \<Rightarrow>
             invoke this (error this) c
               (h @ [Obj [Property (StringKey ''complexError'') True
                            (Str (replace_newlines errorMessage))]])
               (Ref (length h)) w)
      else Inr w)"

subsection \<open>Notions used to state the properties\<close>

text \<open>A value that is neither a function nor a reference to an object.\<close>

fun primitive :: "jsval \<Rightarrow> bool" where
  "primitive (Fun src) = False"
| "primitive (Ref a) = False"
| "primitive v = True"

text \<open>The values that a sanitized value holds as they were found.\<close>

fun leaves :: "out \<Rightarrow> jsval list" where
  "leaves (Leaf v) = [v]"
| "leaves (OArr xs) = concat (map leaves xs)"
| "leaves (OObj kvs) = concat (map (\<lambda>kx. leaves (snd kx)) kvs)"

text \<open>A reference is valid when its address is in the store.\<close>

fun valid :: "heap \<Rightarrow> jsval \<Rightarrow> bool" where
  "valid h (Ref a) = (a < length h)"
| "valid h v = True"

text \<open>A store is closed when every reference held by one of its objects is valid.\<close>

fun closed_obj :: "heap \<Rightarrow> obj \<Rightarrow> bool" where
  "closed_obj h (Arr vs) = list_all (valid h) vs"
| "closed_obj h (Obj ps) = list_all (\<lambda>p. valid h (pval p)) ps"
| "closed_obj h (Err n m s) = (valid h n \<and> valid h m \<and> valid h s)"

definition closed :: "heap \<Rightarrow> bool" where
  "closed h = list_all (closed_obj h) h"

text \<open>
  The Error instances of a store are plain when their name, message and stack are
  primitive values, as the type \<^verbatim>\<open>Error\<close> declares them.
\<close>

fun plain_error :: "obj \<Rightarrow> bool" where
  "plain_error (Err n m s) = (primitive n \<and> primitive m \<and> primitive s)"
| "plain_error ob = True"

definition errors_plain :: "heap \<Rightarrow> bool" where
  "errors_plain h = list_all plain_error h"

text \<open>
  Structural equality of a value of the store with a tree: the same primitive, or an
  array with structurally equal elements, or an object whose own enumerable
  string-keyed properties are the members of the tree, in order. A value that is
  structurally equal to a tree is finite, free of functions and of Error instances.
\<close>

fun struct_eq :: "heap \<Rightarrow> jsval \<Rightarrow> out \<Rightarrow> bool"
  and struct_eq_list :: "heap \<Rightarrow> jsval list \<Rightarrow> out list \<Rightarrow> bool"
  and struct_eq_entries :: "heap \<Rightarrow> (string \<times> jsval) list \<Rightarrow> (string \<times> out) list \<Rightarrow> bool"
where
  "struct_eq h v (Leaf l) = (v = l \<and> primitive l)"
| "struct_eq h v (OArr xs) =
     (case v of
        Ref a \<Rightarrow> (case lookup h a of Some (Arr vs) \<Rightarrow> struct_eq_list h vs xs | _ \<Rightarrow> False)
      | _ \<Rightarrow> False)"
| "struct_eq h v (OObj kvs) =
     (case v of
        Ref a \<Rightarrow>
          (case lookup h a of
             Some (Obj ps) \<Rightarrow> struct_eq_entries h (Object_entries ps) kvs
           | _ \<Rightarrow> False)
      | _ \<Rightarrow> False)"
| "struct_eq_list h vs [] = (vs = [])"
| "struct_eq_list h vs (x # xs) =
     (case vs of [] \<Rightarrow> False | v # vs' \<Rightarrow> struct_eq h v x \<and> struct_eq_list h vs' xs)"
| "struct_eq_entries h es [] = (es = [])"
| "struct_eq_entries h es ((k, x) # kvs) =
     (case es of
        [] \<Rightarrow> False
      | (k', v) # es' \<Rightarrow> k' = k \<and> struct_eq h v x \<and> struct_eq_entries h es' kvs)"

text \<open>
  The addresses of the objects and arrays of a value, in the order in which a walk
  along a structurally equal tree meets them. The value is tree-shaped when no
  address occurs twice.
\<close>

fun objects :: "heap \<Rightarrow> jsval \<Rightarrow> out \<Rightarrow> nat list"
  and objects_list :: "heap \<Rightarrow> jsval list \<Rightarrow> out list \<Rightarrow> nat list"
  and objects_entries :: "heap \<Rightarrow> (string \<times> jsval) list \<Rightarrow> (string \<times> out) list \<Rightarrow> nat list"
where
  "objects h v (Leaf l) = []"
| "objects h v (OArr xs) =
     (case v of
        Ref a \<Rightarrow> (case lookup h a of Some (Arr vs) \<Rightarrow> a # objects_list h vs xs | _ \<Rightarrow> [])
      | _ \<Rightarrow> [])"
| "objects h v (OObj kvs) =
     (case v of
        Ref a \<Rightarrow>
          (case lookup h a of
             Some (Obj ps) \<Rightarrow> a # objects_entries h (Object_entries ps) kvs
           | _ \<Rightarrow> [])
      | _ \<Rightarrow> [])"
| "objects_list h vs [] = []"
| "objects_list h vs (x # xs) =
     (case vs of [] \<Rightarrow> [] | v # vs' \<Rightarrow> objects h v x @ objects_list h vs' xs)"
| "objects_entries h es [] = []"
| "objects_entries h es ((k, x) # kvs) =
     (case es of [] \<Rightarrow> [] | (k', v) # es' \<Rightarrow> objects h v x @ objects_entries h es' kvs)"

text \<open>
  The keys of every object of a tree are distinct, as the keys of an object are, and
  none is \<^verbatim>\<open>__proto__\<close>.
\<close>

fun proper_keys :: "out \<Rightarrow> bool"
  and proper_keys_list :: "out list \<Rightarrow> bool"
  and proper_keys_members :: "(string \<times> out) list \<Rightarrow> bool"
where
  "proper_keys (Leaf l) = True"
| "proper_keys (OArr xs) = proper_keys_list xs"
| "proper_keys (OObj kvs) =
     (distinct (map fst kvs) \<and> ''__proto__'' \<notin> set (map fst kvs) \<and> proper_keys_members kvs)"
| "proper_keys_list [] = True"
| "proper_keys_list (x # xs) = (proper_keys x \<and> proper_keys_list xs)"
| "proper_keys_members [] = True"
| "proper_keys_members ((k, x) # kvs) = (proper_keys x \<and> proper_keys_members kvs)"

text \<open>
  Matching a word of lower-case letters without regard to case: each character is the
  letter of the word or its upper-case form.
\<close>

definition same_letter :: "char \<Rightarrow> char \<Rightarrow> bool" where
  "same_letter c d = (c = d \<or> (of_char c :: nat) + 32 = of_char d)"

definition matches_ignoring_case :: "string \<Rightarrow> string \<Rightarrow> bool" where
  "matches_ignoring_case s word = list_all2 same_letter s word"

text \<open>The test \<^verbatim>\<open>typeof message === 'string'\<close>.\<close>

fun is_string :: "jsval \<Rightarrow> bool" where
  "is_string (Str s) = True"
| "is_string v = False"

text \<open>The record that \<^verbatim>\<open>formatMessage\<close> builds before anything is merged into it.\<close>

definition envelope :: "logger \<Rightarrow> string \<Rightarrow> ctx \<Rightarrow> string option \<Rightarrow> (string \<times> out) list" where
  "envelope this level c m =
     [(''timestamp'', Leaf (Str (now c))),
      (''level'', Leaf (Str level)),
      (''message'', (case m of None \<Rightarrow> Leaf Undefined | Some t \<Rightarrow> Leaf (Str t))),
      (''microservice'', Leaf (Str (microservice this))),
      (''caller'', Leaf (Str (getCallerInfo (trace c))))]"

section \<open>Properties\<close>

subsection \<open>Level gating\<close>

lemma logLevel_Logger: "logLevel (Logger name w) = parseLogLevel (LOG_LEVEL w)"
  by (simp add: Logger_def Let_def)

lemma method_of_Logger:
  "method_of (Logger name w) S =
     (if rank S \<le> rank (parseLogLevel (LOG_LEVEL w)) then Closure S else NoOp)"
  by (cases S) (simp_all add: Logger_def Let_def)

lemma createLogMethod_string:
  "createLogMethod this level c h (Str s) w =
     Inr (if level = ERROR
          then w\<lparr>stderr := stderr w @
                 [''{'' @ QuoteJSONString ''timestamp'' @ '':'' @ QuoteJSONString (now c) @ '',''
                    @ QuoteJSONString ''level'' @ '':'' @ QuoteJSONString (LogLevel_name level) @ '',''
                    @ QuoteJSONString ''message'' @ '':'' @ QuoteJSONString s @ '',''
                    @ QuoteJSONString ''microservice'' @ '':''
                    @ QuoteJSONString (microservice this) @ '',''
                    @ QuoteJSONString ''caller'' @ '':''
                    @ QuoteJSONString (getCallerInfo (trace c)) @ ''}'']\<rparr>
          else w\<lparr>stdout := stdout w @
                 [''{'' @ QuoteJSONString ''timestamp'' @ '':'' @ QuoteJSONString (now c) @ '',''
                    @ QuoteJSONString ''level'' @ '':'' @ QuoteJSONString (LogLevel_name level) @ '',''
                    @ QuoteJSONString ''message'' @ '':'' @ QuoteJSONString s @ '',''
                    @ QuoteJSONString ''microservice'' @ '':''
                    @ QuoteJSONString (microservice this) @ '',''
                    @ QuoteJSONString ''caller'' @ '':''
                    @ QuoteJSONString (getCallerInfo (trace c)) @ ''}'']\<rparr>)"
  by (cases level)
     (simp_all add: createLogMethod_def formatMessage_def console_error_def console_log_def)

text \<open>
  Claim C1. For each of the four severities \<open>S\<close> and each logger built by the
  constructor, whose threshold \<open>T\<close> is the level resolved from the environment, the
  method of \<open>S\<close> is the emitting closure of \<open>S\<close> exactly when \<open>T \<ge> S\<close> by rank, and is
  the no-op otherwise. When \<open>T \<ge> S\<close> a call of the method is a call of the closure,
  which for a string writes one line. When \<open>T < S\<close> a call of the method returns
  normally and leaves the world, both streams included, as it was, for any input and
  at any later time.
\<close>

theorem C1_level_gating:
  "(method_of (Logger name w) S = Closure S \<longleftrightarrow> rank (logLevel (Logger name w)) \<ge> rank S)
   \<and> (method_of (Logger name w) S = NoOp \<longleftrightarrow> rank (logLevel (Logger name w)) < rank S)
   \<and> (rank (logLevel (Logger name w)) \<ge> rank S \<longrightarrow>
        invoke (Logger name w) (method_of (Logger name w) S) c h message w'
          = createLogMethod (Logger name w) S c h message w'
        \<and> (\<exists>line. invoke (Logger name w) (method_of (Logger name w) S) c h (Str s) w'
              = Inr (if S = ERROR then w'\<lparr>stderr := stderr w' @ [line]\<rparr>
                     else w'\<lparr>stdout := stdout w' @ [line]\<rparr>)))
   \<and> (rank (logLevel (Logger name w)) < rank S \<longrightarrow>
        invoke (Logger name w) (method_of (Logger name w) S) c h message w' = Inr w')"
proof -
  have "\<exists>line. createLogMethod (Logger name w) S c h (Str s) w'
              = Inr (if S = ERROR then w'\<lparr>stderr := stderr w' @ [line]\<rparr>
                     else w'\<lparr>stdout := stdout w' @ [line]\<rparr>)"
    unfolding createLogMethod_string by (cases "S = ERROR") auto
  then show ?thesis
    by (simp add: method_of_Logger logLevel_Logger noOp_def)
qed

theorem C1_level_gating_witness:
  "rank (logLevel (Logger ''Svc'' \<lparr>LOG_LEVEL = Some ''info'', stdout = [], stderr = []\<rparr>))
     < rank DEBUG
   \<and> method_of (Logger ''Svc'' \<lparr>LOG_LEVEL = Some ''info'', stdout = [], stderr = []\<rparr>) DEBUG
       = NoOp
   \<and> invoke (Logger ''Svc'' \<lparr>LOG_LEVEL = Some ''info'', stdout = [], stderr = []\<rparr>)
        (method_of (Logger ''Svc'' \<lparr>LOG_LEVEL = Some ''info'', stdout = [], stderr = []\<rparr>) DEBUG)
        \<lparr>now = ''2024-01-01T00:00:00.000Z'', trace = None\<rparr> [] (Str ''x'')
        \<lparr>LOG_LEVEL = Some ''info'', stdout = [], stderr = []\<rparr>
       = Inr \<lparr>LOG_LEVEL = Some ''info'', stdout = [], stderr = []\<rparr>
   \<and> rank (logLevel (Logger ''Svc'' \<lparr>LOG_LEVEL = Some ''info'', stdout = [], stderr = []\<rparr>))
       \<ge> rank INFO
   \<and> method_of (Logger ''Svc'' \<lparr>LOG_LEVEL = Some ''info'', stdout = [], stderr = []\<rparr>) INFO
       = Closure INFO
   \<and> invoke (Logger ''Svc'' \<lparr>LOG_LEVEL = Some ''info'', stdout = [], stderr = []\<rparr>)
        (method_of (Logger ''Svc'' \<lparr>LOG_LEVEL = Some ''info'', stdout = [], stderr = []\<rparr>) INFO)
        \<lparr>now = ''2024-01-01T00:00:00.000Z'', trace = None\<rparr> [] (Str ''y'')
        \<lparr>LOG_LEVEL = Some ''info'', stdout = [], stderr = []\<rparr>
       = Inr \<lparr>LOG_LEVEL = Some ''info'',
              stdout = [''{'' @ QuoteJSONString ''timestamp'' @ '':''
                          @ QuoteJSONString ''2024-01-01T00:00:00.000Z'' @ '',''
                          @ QuoteJSONString ''level'' @ '':'' @ QuoteJSONString ''INFO'' @ '',''
                          @ QuoteJSONString ''message'' @ '':'' @ QuoteJSONString ''y'' @ '',''
                          @ QuoteJSONString ''microservice'' @ '':'' @ QuoteJSONString ''Svc''
                          @ '','' @ QuoteJSONString ''caller'' @ '':''
                          @ QuoteJSONString ''unknown'' @ ''}''],
              stderr = []\<rparr>"
proof -
  let ?w = "\<lparr>LOG_LEVEL = Some ''info'', stdout = [], stderr = []\<rparr>"
  let ?c = "\<lparr>now = ''2024-01-01T00:00:00.000Z'', trace = None\<rparr>"
  have lvl: "parseLogLevel (Some ''info'') = INFO"
    by code_simp
  have lt: "rank (logLevel (Logger ''Svc'' ?w)) < rank DEBUG"
    by (simp add: logLevel_Logger lvl)
  have ge: "rank (logLevel (Logger ''Svc'' ?w)) \<ge> rank INFO"
    by (simp add: logLevel_Logger lvl)
  have y: "createLogMethod (Logger ''Svc'' ?w) INFO ?c [] (Str ''y'') ?w
       = Inr \<lparr>LOG_LEVEL = Some ''info'',
              stdout = [''{'' @ QuoteJSONString ''timestamp'' @ '':''
                          @ QuoteJSONString ''2024-01-01T00:00:00.000Z'' @ '',''
                          @ QuoteJSONString ''level'' @ '':'' @ QuoteJSONString ''INFO'' @ '',''
                          @ QuoteJSONString ''message'' @ '':'' @ QuoteJSONString ''y'' @ '',''
                          @ QuoteJSONString ''microservice'' @ '':'' @ QuoteJSONString ''Svc''
                          @ '','' @ QuoteJSONString ''caller'' @ '':''
                          @ QuoteJSONString ''unknown'' @ ''}''],
              stderr = []\<rparr>"
    by code_simp
  from lt ge
    C1_level_gating [of "''Svc''" ?w DEBUG ?c "[]" "Str ''x''" ?w]
    C1_level_gating [of "''Svc''" ?w INFO ?c "[]" "Str ''y''" ?w]
  have "method_of (Logger ''Svc'' ?w) DEBUG = NoOp"
    and "invoke (Logger ''Svc'' ?w) (method_of (Logger ''Svc'' ?w) DEBUG) ?c [] (Str ''x'') ?w
           = Inr ?w"
    and "method_of (Logger ''Svc'' ?w) INFO = Closure INFO"
    and "invoke (Logger ''Svc'' ?w) (method_of (Logger ''Svc'' ?w) INFO) ?c [] (Str ''y'') ?w
           = createLogMethod (Logger ''Svc'' ?w) INFO ?c [] (Str ''y'') ?w"
    by blast+
  with lt ge y show ?thesis by (simp only: simp_thms)
qed

lemma error_Logger: "error (Logger name w) = Closure ERROR"
  by (simp add: Logger_def Let_def)

text \<open>
  Claim C9. Whatever the environment holds, the resolved threshold has a rank of at
  least that of \<open>ERROR\<close>, the least of the enumeration. So on every logger built by
  the constructor the method \<^verbatim>\<open>error\<close> is the emitting closure, and the test at the
  head of \<^verbatim>\<open>logComplexError\<close> passes: the call goes on to the emission at level
  \<open>ERROR\<close>, and never takes the branch that does nothing.
\<close>

theorem C9_error_always_enabled:
  "rank (parseLogLevel e) \<ge> rank ERROR
   \<and> rank (logLevel (Logger name w)) \<ge> rank ERROR
   \<and> method_of (Logger name w) ERROR = Closure ERROR
   \<and> logComplexError (Logger name w) c h err w' =
       (case errorMessage_of h err of
          Inl x \<Rightarrow> Inl x
        | Inr errorMessage \<Rightarrow>
            createLogMethod (Logger name w) ERROR c
              (h @ [Obj [Property (StringKey ''complexError'') True
                           (Str (replace_newlines errorMessage))]])
              (Ref (length h)) w')"
  by (simp add: logComplexError_def error_Logger split: sum.splits)

theorem C9_error_always_enabled_witness:
  "rank (parseLogLevel (Some ''error'')) \<ge> rank ERROR
   \<and> method_of (Logger ''Svc'' \<lparr>LOG_LEVEL = Some ''error'', stdout = [], stderr = []\<rparr>) ERROR
       = Closure ERROR
   \<and> logComplexError (Logger ''Svc'' \<lparr>LOG_LEVEL = Some ''error'', stdout = [], stderr = []\<rparr>)
       \<lparr>now = ''2024-01-01T00:00:00.000Z'', trace = None\<rparr>
       [Obj [Property (StringKey ''code'') True (Num 7)]] (Ref 0)
       \<lparr>LOG_LEVEL = None, stdout = [], stderr = []\<rparr>
     = createLogMethod
         (Logger ''Svc'' \<lparr>LOG_LEVEL = Some ''error'', stdout = [], stderr = []\<rparr>) ERROR
         \<lparr>now = ''2024-01-01T00:00:00.000Z'', trace = None\<rparr>
         [Obj [Property (StringKey ''code'') True (Num 7)],
          Obj [Property (StringKey ''complexError'') True
                 (Str (''{'' @ QuoteJSONString ''code'' @ '':7}''))]]
         (Ref 1) \<lparr>LOG_LEVEL = None, stdout = [], stderr = []\<rparr>"
proof -
  have e: "errorMessage_of [Obj [Property (StringKey ''code'') True (Num 7)]] (Ref 0)
             = Inr (''{'' @ QuoteJSONString ''code'' @ '':7}'')"
    by code_simp
  have r: "replace_newlines (''{'' @ QuoteJSONString ''code'' @ '':7}'')
             = ''{'' @ QuoteJSONString ''code'' @ '':7}''"
    by code_simp
  from e r C9_error_always_enabled [of "Some ''error''" "''Svc''"
      "\<lparr>LOG_LEVEL = Some ''error'', stdout = [], stderr = []\<rparr>"
      "\<lparr>now = ''2024-01-01T00:00:00.000Z'', trace = None\<rparr>"
      "[Obj [Property (StringKey ''code'') True (Num 7)]]" "Ref 0"
      "\<lparr>LOG_LEVEL = None, stdout = [], stderr = []\<rparr>"]
  show ?thesis by simp
qed

subsection \<open>Reading the level from the environment\<close>

lemma lower_char_letter:
  assumes "97 \<le> (of_char d :: nat)" "(of_char d :: nat) \<le> 122"
  shows "lower_char c = d \<longleftrightarrow> same_letter c d"
proof (cases "65 \<le> (of_char c :: nat) \<and> (of_char c :: nat) \<le> 90")
  case True
  then have ne: "c \<noteq> d" using assms by auto
  have "char_of ((of_char c :: nat) + 32) = d \<longleftrightarrow> (of_char c :: nat) + 32 = of_char d"
  proof
    assume "char_of ((of_char c :: nat) + 32) = d"
    then have "(of_char (char_of ((of_char c :: nat) + 32)) :: nat) = of_char d" by simp
    with True show "(of_char c :: nat) + 32 = of_char d" by (simp add: of_char_of)
  next
    assume "(of_char c :: nat) + 32 = of_char d"
    then show "char_of ((of_char c :: nat) + 32) = d" by simp
  qed
  with True ne show ?thesis by (simp add: lower_char_def same_letter_def)
next
  case False
  with assms have "(of_char c :: nat) + 32 \<noteq> of_char d"
    by arith
  with False show ?thesis by (auto simp add: lower_char_def same_letter_def)
qed

lemma toLowerCase_matches:
  assumes "\<forall>d \<in> set word. 97 \<le> (of_char d :: nat) \<and> (of_char d :: nat) \<le> 122"
  shows "toLowerCase s = word \<longleftrightarrow> matches_ignoring_case s word"
  using assms
proof (induction s arbitrary: word)
  case Nil
  then show ?case by (auto simp: toLowerCase_def matches_ignoring_case_def)
next
  case (Cons c s)
  show ?case
  proof (cases word)
    case Nil
    then show ?thesis by (simp add: toLowerCase_def matches_ignoring_case_def)
  next
    case (Cons d ds)
    with Cons.prems have d: "97 \<le> (of_char d :: nat)" "(of_char d :: nat) \<le> 122"
      and ds: "\<forall>d \<in> set ds. 97 \<le> (of_char d :: nat) \<and> (of_char d :: nat) \<le> 122"
      by simp_all
    from Cons.IH [OF ds] lower_char_letter [OF d] Cons show ?thesis
      by (simp add: toLowerCase_def matches_ignoring_case_def)
  qed
qed

lemma toLowerCase_words:
  "toLowerCase s = ''error'' \<longleftrightarrow> matches_ignoring_case s ''error''"
  "toLowerCase s = ''warn'' \<longleftrightarrow> matches_ignoring_case s ''warn''"
  "toLowerCase s = ''info'' \<longleftrightarrow> matches_ignoring_case s ''info''"
  "toLowerCase s = ''debug'' \<longleftrightarrow> matches_ignoring_case s ''debug''"
  by (rule toLowerCase_matches, simp)+

lemma invoke_env:
  "invoke this m c h message (w\<lparr>LOG_LEVEL := e\<rparr>) =
     map_sum id (\<lambda>x. x\<lparr>LOG_LEVEL := e\<rparr>) (invoke this m c h message w)"
  by (cases m)
     (simp_all add: createLogMethod_def noOp_def console_log_def console_error_def
        split: sum.splits)

text \<open>
  Claim C6. \<^verbatim>\<open>parseLogLevel\<close> returns a severity exactly when the value matches its
  name without regard to case, and \<open>INFO\<close> for an absent, an empty or any other
  value; it is a total function and raises nothing. The threshold of a logger is the
  one resolved when it was built: a later change of the variable changes nothing in
  what a method of the logger or \<^verbatim>\<open>logComplexError\<close> does.
\<close>

theorem C6_parseLogLevel:
  "parseLogLevel None = INFO
   \<and> parseLogLevel (Some []) = INFO
   \<and> (parseLogLevel (Some s) = ERROR \<longleftrightarrow> matches_ignoring_case s ''error'')
   \<and> (parseLogLevel (Some s) = WARN \<longleftrightarrow> matches_ignoring_case s ''warn'')
   \<and> (parseLogLevel (Some s) = DEBUG \<longleftrightarrow> matches_ignoring_case s ''debug'')
   \<and> (parseLogLevel (Some s) = INFO \<longleftrightarrow>
        matches_ignoring_case s ''info''
        \<or> \<not> (matches_ignoring_case s ''error'' \<or> matches_ignoring_case s ''warn''
               \<or> matches_ignoring_case s ''debug''))
   \<and> logLevel (Logger name w) = parseLogLevel (LOG_LEVEL w)
   \<and> invoke (Logger name w) (method_of (Logger name w) S) c h message (w'\<lparr>LOG_LEVEL := e\<rparr>) =
       map_sum id (\<lambda>x. x\<lparr>LOG_LEVEL := e\<rparr>)
         (invoke (Logger name w) (method_of (Logger name w) S) c h message w')
   \<and> logComplexError (Logger name w) c h err (w'\<lparr>LOG_LEVEL := e\<rparr>) =
       map_sum id (\<lambda>x. x\<lparr>LOG_LEVEL := e\<rparr>)
         (logComplexError (Logger name w) c h err w')"
proof -
  have words: "''error'' \<noteq> ''warn''" by simp
  have "parseLogLevel (Some []) = INFO"
    by (simp add: parseLogLevel_def toLowerCase_def)
  moreover have "parseLogLevel (Some s) = ERROR \<longleftrightarrow> matches_ignoring_case s ''error''"
    using toLowerCase_words [of s] by (auto simp: parseLogLevel_def)
  moreover have "parseLogLevel (Some s) = WARN \<longleftrightarrow> matches_ignoring_case s ''warn''"
    using toLowerCase_words [of s] by (auto simp: parseLogLevel_def)
  moreover have "parseLogLevel (Some s) = DEBUG \<longleftrightarrow> matches_ignoring_case s ''debug''"
    using toLowerCase_words [of s] by (auto simp: parseLogLevel_def)
  moreover have "parseLogLevel (Some s) = INFO \<longleftrightarrow>
        matches_ignoring_case s ''info''
        \<or> \<not> (matches_ignoring_case s ''error'' \<or> matches_ignoring_case s ''warn''
               \<or> matches_ignoring_case s ''debug'')"
    using toLowerCase_words [of s] by (auto simp: parseLogLevel_def)
  moreover have "logComplexError (Logger name w) c h err (w'\<lparr>LOG_LEVEL := e\<rparr>) =
       map_sum id (\<lambda>x. x\<lparr>LOG_LEVEL := e\<rparr>)
         (logComplexError (Logger name w) c h err w')"
    by (simp add: logComplexError_def invoke_env split: sum.splits)
  ultimately show ?thesis
    by (simp add: invoke_env logLevel_Logger parseLogLevel_def)
qed

theorem C6_parseLogLevel_witness:
  "matches_ignoring_case ''DeBuG'' ''debug''
   \<and> parseLogLevel (Some ''DeBuG'') = DEBUG
   \<and> \<not> matches_ignoring_case ''verbose'' ''error''
   \<and> \<not> matches_ignoring_case ''verbose'' ''warn''
   \<and> \<not> matches_ignoring_case ''verbose'' ''debug''
   \<and> parseLogLevel (Some ''verbose'') = INFO"
proof -
  have m: "matches_ignoring_case ''DeBuG'' ''debug''"
    by (simp add: matches_ignoring_case_def same_letter_def)
  have n: "\<not> matches_ignoring_case ''verbose'' ''error''"
    "\<not> matches_ignoring_case ''verbose'' ''warn''"
    "\<not> matches_ignoring_case ''verbose'' ''debug''"
    by (simp_all add: matches_ignoring_case_def same_letter_def)
  from m n C6_parseLogLevel [of "''DeBuG''"] C6_parseLogLevel [of "''verbose''"]
  show ?thesis by blast
qed

subsection \<open>Sanitization: the set of visited objects\<close>

lemma seen_grows:
  "seen \<subseteq> fst (sanitizeValue h seen v)"
  "seen \<subseteq> fst (sanitizeMap h seen vs)"
  "seen \<subseteq> fst (sanitizeEntries h seen es result)"
  by (induct h seen v and h seen vs and h seen es result
        rule: sanitizeValue_sanitizeMap_sanitizeEntries.induct)
     (auto split: option.splits obj.splits prod.splits, blast+)

lemma visited:
  assumes "lookup h a = Some (Arr vs) \<or> lookup h a = Some (Obj ps)"
  shows "a \<in> fst (sanitizeValue h seen (Ref a))"
proof (cases "a \<in> seen")
  case True
  with assms show ?thesis by auto
next
  case False
  from assms show ?thesis
  proof
    assume l: "lookup h a = Some (Arr vs)"
    from seen_grows(2) [of "insert a seen" h vs] False l show ?thesis
      by (auto split: prod.splits)
  next
    assume l: "lookup h a = Some (Obj ps)"
    from seen_grows(3) [of "insert a seen" h "Object_entries ps" "[]"] False l show ?thesis
      by (auto split: prod.splits)
  qed
qed

lemma two_references:
  assumes a: "lookup h a = Some (Obj [Property (StringKey k1) True (Ref b),
                                       Property (StringKey k2) True (Ref b)])"
   and s1: "sanitizeValue h {a} (Ref b) = (seen1, x)"
   and c: "sanitizeValue h seen1 (Ref b) = (seen1, Leaf (Str ''[Circular]''))"
 shows "sanitizeObject h (Ref a) =
      OObj (assign (assign [] k1 x) k2 (Leaf (Str ''[Circular]'')))"
    by (simp only: sanitizeObject_def sanitizeValue.simps(2) [of h "{}" a] a option.case
          obj.case empty_iff if_False Object_entries.simps sanitizeEntries.simps s1 c
          prod.case snd_conv)

lemma seen_circular:
  assumes b: "lookup h b = Some (Arr vs) \<or> lookup h b = Some (Obj ps)" and m: "b \<in> seen1"
  shows "sanitizeValue h seen1 (Ref b) = (seen1, Leaf (Str ''[Circular]''))"
  using b m by auto

lemma shared_second_occurrence:
  assumes a: "lookup h a = Some (Obj [Property (StringKey k1) True (Ref b),
                                       Property (StringKey k2) True (Ref b)])"
    and b: "lookup h b = Some (Arr vs) \<or> lookup h b = Some (Obj ps)"
  shows "\<exists>x. sanitizeObject h (Ref a) =
           OObj (assign (assign [] k1 x) k2 (Leaf (Str ''[Circular]'')))"
proof -
  have m: "b \<in> fst (sanitizeValue h {a} (Ref b))"
    using b by (rule visited)
  have s1: "sanitizeValue h {a} (Ref b) =
              (fst (sanitizeValue h {a} (Ref b)), snd (sanitizeValue h {a} (Ref b)))"
    by (rule prod.collapse [symmetric])
  show ?thesis
    by (rule exI, rule two_references [OF a s1 seen_circular [OF b m]])
qed

text \<open>
  Claim C5. Within one call of \<^verbatim>\<open>sanitizeObject\<close> the set \<^verbatim>\<open>seen\<close> only grows: what a
  call of \<^verbatim>\<open>sanitizeValue\<close> returns contains what it was given. An object or array is
  in the set once it has been sanitized, and an object or array that is in the set is
  replaced by the string \<^verbatim>\<open>[Circular]\<close>. So when an object holds the same object or
  array under two keys, with no cycle needed, the second of the two is replaced.
\<close>

theorem C5_visited_replaced:
  "seen \<subseteq> fst (sanitizeValue h seen v)
   \<and> (lookup h a = Some (Arr vs) \<or> lookup h a = Some (Obj ps) \<longrightarrow>
        a \<in> fst (sanitizeValue h seen (Ref a))
        \<and> (a \<in> seen \<longrightarrow> sanitizeValue h seen (Ref a) = (seen, Leaf (Str ''[Circular]'')))
        \<and> (lookup h p = Some (Obj [Property (StringKey k1) True (Ref a),
                                     Property (StringKey k2) True (Ref a)]) \<longrightarrow>
             (\<exists>x. sanitizeObject h (Ref p) =
                    OObj (assign (assign [] k1 x) k2 (Leaf (Str ''[Circular]''))))))"
proof (intro conjI impI)
  show "seen \<subseteq> fst (sanitizeValue h seen v)"
    by (rule seen_grows(1))
next
  assume "lookup h a = Some (Arr vs) \<or> lookup h a = Some (Obj ps)"
  then show "a \<in> fst (sanitizeValue h seen (Ref a))"
    by (rule visited)
next
  assume "lookup h a = Some (Arr vs) \<or> lookup h a = Some (Obj ps)" and "a \<in> seen"
  then show "sanitizeValue h seen (Ref a) = (seen, Leaf (Str ''[Circular]''))"
    by auto
next
  assume "lookup h a = Some (Arr vs) \<or> lookup h a = Some (Obj ps)"
    and "lookup h p = Some (Obj [Property (StringKey k1) True (Ref a),
                                 Property (StringKey k2) True (Ref a)])"
  then show "\<exists>x. sanitizeObject h (Ref p) =
                OObj (assign (assign [] k1 x) k2 (Leaf (Str ''[Circular]'')))"
    by (rule shared_second_occurrence [rotated])
qed

theorem C5_visited_replaced_witness:
  "lookup [Obj [Property (StringKey ''a'') True (Ref 1), Property (StringKey ''b'') True (Ref 1)],
           Obj []] 1 = Some (Obj [])
   \<and> lookup [Obj [Property (StringKey ''a'') True (Ref 1), Property (StringKey ''b'') True (Ref 1)],
           Obj []] 0
       = Some (Obj [Property (StringKey ''a'') True (Ref 1), Property (StringKey ''b'') True (Ref 1)])
   \<and> (\<exists>x. sanitizeObject
            [Obj [Property (StringKey ''a'') True (Ref 1), Property (StringKey ''b'') True (Ref 1)],
             Obj []] (Ref 0)
          = OObj [(''a'', x), (''b'', Leaf (Str ''[Circular]''))])"
proof -
  let ?h = "[Obj [Property (StringKey ''a'') True (Ref 1), Property (StringKey ''b'') True (Ref 1)],
           Obj []]"
  have l1: "lookup ?h 1 = Some (Obj [])" by (simp add: lookup_def)
  have l0: "lookup ?h 0
       = Some (Obj [Property (StringKey ''a'') True (Ref 1), Property (StringKey ''b'') True (Ref 1)])"
    by (simp add: lookup_def)
  have k: "assign (assign [] ''a'' x) ''b'' y = [(''a'', x), (''b'', y)]" for x y
    by (simp add: assign_def)
  have "\<exists>x. sanitizeObject ?h (Ref 0) =
           OObj (assign (assign [] ''a'' x) ''b'' (Leaf (Str ''[Circular]'')))"
    using C5_visited_replaced [of "{}" ?h "Ref 0" 1 "[]" "[]" 0 "''a''" "''b''"]
    by (simp only: l1 l0) simp
  with l1 l0 show ?thesis by (simp only: k)
qed

text \<open>
  Claim C7. For an object whose properties are \<^verbatim>\<open>a\<close> with the value 1 and
  \<^verbatim>\<open>self\<close> with a reference to the object itself, at any address of any store,
  \<^verbatim>\<open>sanitizeObject\<close> returns the object with \<^verbatim>\<open>a\<close> unchanged and \<^verbatim>\<open>self\<close>
  replaced by the string \<^verbatim>\<open>[Circular]\<close>.
\<close>

theorem C7_self_reference:
  "lookup h p = Some (Obj [Property (StringKey ''a'') True (Num 1),
                           Property (StringKey ''self'') True (Ref p)]) \<Longrightarrow>
     sanitizeObject h (Ref p) =
       OObj [(''a'', Leaf (Num 1)), (''self'', Leaf (Str ''[Circular]''))]"
  by (simp add: sanitizeObject_def assign_def)

theorem C7_self_reference_witness:
  "lookup [Obj [Property (StringKey ''a'') True (Num 1),
                Property (StringKey ''self'') True (Ref 0)]] 0
     = Some (Obj [Property (StringKey ''a'') True (Num 1),
                  Property (StringKey ''self'') True (Ref 0)])
   \<and> sanitizeObject [Obj [Property (StringKey ''a'') True (Num 1),
                          Property (StringKey ''self'') True (Ref 0)]] (Ref 0)
     = OObj [(''a'', Leaf (Num 1)), (''self'', Leaf (Str ''[Circular]''))]"
proof -
  have l: "lookup [Obj [Property (StringKey ''a'') True (Num 1),
                Property (StringKey ''self'') True (Ref 0)]] 0
     = Some (Obj [Property (StringKey ''a'') True (Num 1),
                  Property (StringKey ''self'') True (Ref 0)])"
    by (simp add: lookup_def)
  from C7_self_reference [OF l] l show ?thesis by simp
qed

subsection \<open>Sanitization: what the result holds\<close>

lemma lookup_closed: "closed h \<Longrightarrow> lookup h a = Some ob \<Longrightarrow> closed_obj h ob"
  by (auto simp: closed_def lookup_def list_all_length split: if_splits)

lemma lookup_plain: "errors_plain h \<Longrightarrow> lookup h a = Some ob \<Longrightarrow> plain_error ob"
  by (auto simp: errors_plain_def lookup_def list_all_length split: if_splits)

lemma valid_entries:
  "list_all (\<lambda>p. valid h (pval p)) ps \<Longrightarrow> list_all (\<lambda>e. valid h (snd e)) (Object_entries ps)"
  by (induct ps rule: Object_entries.induct) simp_all

lemma leaves_put:
  "set (leaves (OObj (put r k x))) \<subseteq> set (leaves (OObj r)) \<union> set (leaves x)"
  by (induct r k x rule: put.induct) auto

lemma leaves_assign:
  "set (leaves (OObj (assign r k x))) \<subseteq> set (leaves (OObj r)) \<union> set (leaves x)"
  using leaves_put [of r k x] by (auto simp: assign_def)

lemma sanitize_leaves:
  "closed h \<Longrightarrow> errors_plain h \<Longrightarrow> valid h v \<Longrightarrow>
     list_all primitive (leaves (snd (sanitizeValue h seen v)))"
  "closed h \<Longrightarrow> errors_plain h \<Longrightarrow> list_all (valid h) vs \<Longrightarrow>
     list_all primitive (leaves (OArr (snd (sanitizeMap h seen vs))))"
  "closed h \<Longrightarrow> errors_plain h \<Longrightarrow> list_all (\<lambda>e. valid h (snd e)) es \<Longrightarrow>
     list_all primitive (leaves (OObj result)) \<Longrightarrow>
     list_all primitive (leaves (OObj (snd (sanitizeEntries h seen es result))))"
proof (induct h seen v and h seen vs and h seen es result
        rule: sanitizeValue_sanitizeMap_sanitizeEntries.induct)
  case (2 h seen a)
  show ?case
  proof (cases "lookup h a")
    case None
    with 2 show ?thesis by (simp add: lookup_def split: if_splits)
  next
    case (Some ob)
    note ob = lookup_closed [OF 2(3) Some] lookup_plain [OF 2(4) Some]
    show ?thesis
    proof (cases ob)
      case (Arr vs)
      with 2(1) [OF Some Arr] 2(3,4) Some ob show ?thesis
        by (auto split: prod.splits)
    next
      case (Obj ps)
      with 2(2) [OF Some Obj] 2(3,4) Some ob valid_entries [of h ps] show ?thesis
        by (auto split: prod.splits)
    next
      case (Err n m s)
      with Some ob show ?thesis by simp
    qed
  qed
next
  case (7 h seen k v es result)
  obtain seen1 x where sv: "sanitizeValue h seen v = (seen1, x)"
    by (cases "sanitizeValue h seen v")
  from 7(1) 7(3-5) sv have x: "list_all primitive (leaves x)" by simp
  from leaves_assign [of result k x] x 7(6)
  have "list_all primitive (leaves (OObj (assign result k x)))"
    by (auto simp: list_all_iff)
  with 7(2) [OF sv [symmetric]] 7(3-5) sv show ?case by simp
qed (auto split: prod.splits)

subsection \<open>Sanitization: tree-shaped data\<close>

lemma put_fresh: "k \<notin> set (map fst r) \<Longrightarrow> put r k x = r @ [(k, x)]"
  by (induct r k x rule: put.induct) auto

lemma sanitize_primitive: "primitive l \<Longrightarrow> sanitizeValue h seen l = (seen, Leaf l)"
  by (cases l) simp_all

lemma sanitize_tree:
  "struct_eq h v t \<Longrightarrow> proper_keys t \<Longrightarrow> distinct (objects h v t) \<Longrightarrow>
     set (objects h v t) \<inter> seen = {} \<Longrightarrow>
     sanitizeValue h seen v = (seen \<union> set (objects h v t), t)"
  "struct_eq_list h vs xs \<Longrightarrow> proper_keys_list xs \<Longrightarrow> distinct (objects_list h vs xs) \<Longrightarrow>
     set (objects_list h vs xs) \<inter> seen = {} \<Longrightarrow>
     sanitizeMap h seen vs = (seen \<union> set (objects_list h vs xs), xs)"
  "struct_eq_entries h es kvs \<Longrightarrow> proper_keys_members kvs \<Longrightarrow>
     distinct (map fst kvs) \<Longrightarrow> ''__proto__'' \<notin> set (map fst kvs) \<Longrightarrow>
     set (map fst kvs) \<inter> set (map fst result) = {} \<Longrightarrow>
     distinct (objects_entries h es kvs) \<Longrightarrow>
     set (objects_entries h es kvs) \<inter> seen = {} \<Longrightarrow>
     sanitizeEntries h seen es result = (seen \<union> set (objects_entries h es kvs), result @ kvs)"
proof (induct h v t and h vs xs and h es kvs arbitrary: seen and seen and seen result
        rule: struct_eq_struct_eq_list_struct_eq_entries.induct)
  case (1 h v l seen)
  then show ?case by (simp add: sanitize_primitive)
next
  case (2 h v xs seen)
  from 2(2) obtain a vs where v: "v = Ref a" and l: "lookup h a = Some (Arr vs)"
    and eq: "struct_eq_list h vs xs"
    by (auto split: jsval.splits option.splits obj.splits)
  from 2(4,5) v l have d: "distinct (objects_list h vs xs)" and a: "a \<notin> seen"
    and i: "set (objects_list h vs xs) \<inter> insert a seen = {}"
    by auto
  from 2(1) [OF v l refl eq _ d i] 2(3)
  have "sanitizeMap h (insert a seen) vs = (insert a seen \<union> set (objects_list h vs xs), xs)"
    by simp
  with v l a show ?case by simp
next
  case (3 h v kvs seen)
  from 3(2) obtain a ps where v: "v = Ref a" and l: "lookup h a = Some (Obj ps)"
    and eq: "struct_eq_entries h (Object_entries ps) kvs"
    by (auto split: jsval.splits option.splits obj.splits)
  from 3(4,5) v l have d: "distinct (objects_entries h (Object_entries ps) kvs)"
    and a: "a \<notin> seen"
    and i: "set (objects_entries h (Object_entries ps) kvs) \<inter> insert a seen = {}"
    by auto
  from 3(3) have k: "proper_keys_members kvs" "distinct (map fst kvs)"
    "''__proto__'' \<notin> set (map fst kvs)"
    by simp_all
  from 3(1) [OF v l refl eq k _ d i, of "[]"]
  have "sanitizeEntries h (insert a seen) (Object_entries ps) [] =
          (insert a seen \<union> set (objects_entries h (Object_entries ps) kvs), kvs)"
    by simp
  with v l a show ?case by simp
next
  case (4 h vs seen)
  then show ?case by simp
next
  case (5 h vs x xs seen)
  from 5(3) obtain v vs' where vs: "vs = v # vs'" and e1: "struct_eq h v x"
    and e2: "struct_eq_list h vs' xs"
    by (auto split: list.splits)
  from 5(4) have p: "proper_keys x" "proper_keys_list xs" by simp_all
  from 5(5,6) vs have d1: "distinct (objects h v x)" and d2: "distinct (objects_list h vs' xs)"
    and i1: "set (objects h v x) \<inter> seen = {}"
    and i2: "set (objects_list h vs' xs) \<inter> (seen \<union> set (objects h v x)) = {}"
    by auto
  from 5(1) [OF vs e1 p(1) d1 i1]
  have s1: "sanitizeValue h seen v = (seen \<union> set (objects h v x), x)" .
  from 5(2) [OF vs e2 p(2) d2 i2]
  have "sanitizeMap h (seen \<union> set (objects h v x)) vs' =
          (seen \<union> set (objects h v x) \<union> set (objects_list h vs' xs), xs)" .
  with s1 vs show ?case by (simp add: Un_assoc)
next
  case (6 h es seen result)
  then show ?case by simp
next
  case (7 h es k x kvs seen result)
  from 7(3) obtain v es' where es: "es = (k, v) # es'" and e1: "struct_eq h v x"
    and e2: "struct_eq_entries h es' kvs"
    by (auto split: list.splits)
  from 7(4) have p: "proper_keys x" "proper_keys_members kvs" by simp_all
  from 7(5,6,7) have k: "distinct (map fst kvs)" "''__proto__'' \<notin> set (map fst kvs)"
    "k \<noteq> ''__proto__''" "k \<notin> set (map fst result)" "k \<notin> set (map fst kvs)"
    "set (map fst kvs) \<inter> set (map fst (result @ [(k, x)])) = {}"
    by auto
  from 7(8,9) es have d1: "distinct (objects h v x)"
    and d2: "distinct (objects_entries h es' kvs)"
    and i1: "set (objects h v x) \<inter> seen = {}"
    and i2: "set (objects_entries h es' kvs) \<inter> (seen \<union> set (objects h v x)) = {}"
    by auto
  from 7(1) [OF es refl e1 p(1) d1 i1]
  have s1: "sanitizeValue h seen v = (seen \<union> set (objects h v x), x)" by simp
  have a: "assign result k x = result @ [(k, x)]"
    using k(3,4) by (simp add: assign_def put_fresh)
  from 7(2) [OF es refl e2 p(2) k(1,2,6) d2 i2]
  have "sanitizeEntries h (seen \<union> set (objects h v x)) es' (result @ [(k, x)]) =
          (seen \<union> set (objects h v x) \<union> set (objects_entries h es' kvs),
           (result @ [(k, x)]) @ kvs)" by simp
  with s1 es a show ?case by (simp add: Un_assoc)
qed

subsection \<open>Sanitization: the claims on its result\<close>

lemma stringify_primitive_leaves:
  "list_all primitive (leaves t) \<Longrightarrow> \<exists>r. JSON_stringify t = Inr r"
  "list_all primitive (leaves (OArr xs)) \<Longrightarrow> \<exists>r. stringify_elements xs = Inr r"
  "list_all primitive (leaves (OObj kvs)) \<Longrightarrow> \<exists>r. stringify_members kvs = Inr r"
proof (induct t and xs and kvs rule: JSON_stringify_stringify_elements_stringify_members.induct)
qed (auto split: sum.splits)






text \<open>
  Claim C4, amended. For a value that is structurally equal to a tree (so finite and
  free of functions and Error instances), whose objects and arrays are each reached
  once, and none of whose keys is \<^verbatim>\<open>__proto__\<close>, \<^verbatim>\<open>sanitizeObject\<close> returns that
  tree: the result is structurally equal to the value.
\<close>

theorem C4_identity_on_trees:
  "struct_eq h x t \<Longrightarrow> proper_keys t \<Longrightarrow> distinct (objects h x t) \<Longrightarrow>
     sanitizeObject h x = t \<and> struct_eq h x (sanitizeObject h x)"
  using sanitize_tree(1) [of h x t "{}"] by (simp add: sanitizeObject_def)

theorem C4_identity_on_trees_witness:
  "struct_eq [Obj [Property (StringKey ''key'') True (Str ''value''),
                   Property (StringKey ''nested'') True (Ref 1),
                   Property (StringKey ''array'') True (Ref 2)],
              Obj [Property (StringKey ''prop'') True (Bool True)],
              Arr [Num 1, Null, Ref 3],
              Obj []] (Ref 0)
     (OObj [(''key'', Leaf (Str ''value'')),
            (''nested'', OObj [(''prop'', Leaf (Bool True))]),
            (''array'', OArr [Leaf (Num 1), Leaf Null, OObj []])])
   \<and> sanitizeObject [Obj [Property (StringKey ''key'') True (Str ''value''),
                   Property (StringKey ''nested'') True (Ref 1),
                   Property (StringKey ''array'') True (Ref 2)],
              Obj [Property (StringKey ''prop'') True (Bool True)],
              Arr [Num 1, Null, Ref 3],
              Obj []] (Ref 0)
     = OObj [(''key'', Leaf (Str ''value'')),
            (''nested'', OObj [(''prop'', Leaf (Bool True))]),
            (''array'', OArr [Leaf (Num 1), Leaf Null, OObj []])]"
proof -
  let ?h = "[Obj [Property (StringKey ''key'') True (Str ''value''),
                   Property (StringKey ''nested'') True (Ref 1),
                   Property (StringKey ''array'') True (Ref 2)],
              Obj [Property (StringKey ''prop'') True (Bool True)],
              Arr [Num 1, Null, Ref 3],
              Obj []]"
  let ?t = "OObj [(''key'', Leaf (Str ''value'')),
            (''nested'', OObj [(''prop'', Leaf (Bool True))]),
            (''array'', OArr [Leaf (Num 1), Leaf Null, OObj []])]"
  have e: "struct_eq ?h (Ref 0) ?t" by (simp add: lookup_def)
  have p: "proper_keys ?t" by simp
  have d: "distinct (objects ?h (Ref 0) ?t)" by (simp add: lookup_def)
  from C4_identity_on_trees [OF e p d] e show ?thesis by simp
qed

text \<open>
  Claim C4 as stated fails on data without a cycle in which an object is reached along
  two paths: the value \<^verbatim>\<open>{a: o, b: o}\<close> with \<^verbatim>\<open>o = {}\<close> is structurally equal to the
  tree \<^verbatim>\<open>{a: {}, b: {}}\<close>, and is sanitized to \<^verbatim>\<open>{a: {}, b: "[Circular]"}\<close>.
\<close>

theorem C4_shared_object_counterexample:
  "struct_eq [Obj [Property (StringKey ''a'') True (Ref 1),
                   Property (StringKey ''b'') True (Ref 1)],
              Obj []] (Ref 0)
     (OObj [(''a'', OObj []), (''b'', OObj [])])
   \<and> sanitizeObject [Obj [Property (StringKey ''a'') True (Ref 1),
                           Property (StringKey ''b'') True (Ref 1)],
                      Obj []] (Ref 0)
       = OObj [(''a'', OObj []), (''b'', Leaf (Str ''[Circular]''))]
   \<and> \<not> struct_eq [Obj [Property (StringKey ''a'') True (Ref 1),
                     Property (StringKey ''b'') True (Ref 1)],
                Obj []] (Ref 0)
       (sanitizeObject [Obj [Property (StringKey ''a'') True (Ref 1),
                             Property (StringKey ''b'') True (Ref 1)],
                        Obj []] (Ref 0))"
  by (simp add: sanitizeObject_def lookup_def assign_def)

subsection \<open>Characters and strings\<close>

lemma char_of_eq_iff: "n < 256 \<Longrightarrow> char_of n = c \<longleftrightarrow> n = (of_char c :: nat)"
proof
  assume "n < 256" "char_of n = c"
  then have "(of_char (char_of n) :: nat) = of_char c" by simp
  with \<open>n < 256\<close> show "n = of_char c" by simp
next
  assume "n = (of_char c :: nat)"
  then show "char_of n = c" by simp
qed

lemma digits_nonempty: "digits n \<noteq> []"
  by (subst digits.simps) simp

lemma digits_chars: "c \<in> set (digits n) \<Longrightarrow> 48 \<le> (of_char c :: nat) \<and> (of_char c :: nat) \<le> 57"
proof (induct n rule: digits.induct)
  case (1 n)
  show ?case
  proof (cases "n < 10")
    case True
    with 1(2) have "c = char_of (48 + n)" by (subst (asm) digits.simps) simp
    with True show ?thesis by simp
  next
    case False
    with 1(2) have "c \<in> set (digits (n div 10)) \<or> c = char_of (48 + n mod 10)"
      by (subst (asm) digits.simps) auto
    then show ?thesis
    proof
      assume "c \<in> set (digits (n div 10))"
      with 1(1) False show ?thesis by simp
    next
      assume c: "c = char_of (48 + n mod 10)"
      have "n mod 10 < 10" by simp
      then have "(48 + n mod 10) mod 256 = 48 + n mod 10" by simp
      with c have "(of_char c :: nat) = 48 + n mod 10" by simp
      then show ?thesis by simp
    qed
  qed
qed

lemma digits_inj: "digits n = digits m \<Longrightarrow> n = m"
proof (induct n arbitrary: m rule: digits.induct)
  case (1 n)
  have len: "length (digits k) \<ge> 2" if "\<not> k < 10" for k
    using that digits_nonempty [of "k div 10"]
    by (subst digits.simps) (cases "digits (k div 10)", simp_all)
  have one: "length (digits k) = 1" if "k < 10" for k
    using that by (subst digits.simps) simp
  show ?case
  proof (cases "n < 10")
    case True
    with one [of n] 1(2) len [of m] have m: "m < 10" by (cases "m < 10") auto
    from True m 1(2) have "char_of (48 + n) = (char_of (48 + m) :: char)"
      by (subst (asm) digits.simps, subst (asm) (2) digits.simps) simp
    with True m show ?thesis by (simp add: char_of_eq_iff)
  next
    case False
    with one [of m] 1(2) len [of n] have m: "\<not> m < 10" by (cases "m < 10") auto
    from False m 1(2)
    have "digits (n div 10) @ [char_of (48 + n mod 10)] = digits (m div 10) @ [char_of (48 + m mod 10)]"
      by (subst (asm) digits.simps, subst (asm) (2) digits.simps) simp
    then have d: "digits (n div 10) = digits (m div 10)"
      and c: "char_of (48 + n mod 10) = (char_of (48 + m mod 10) :: char)"
      by simp_all
    from 1(1) [OF False d] have "n div 10 = m div 10" .
    moreover from c have "n mod 10 = m mod 10"
      by (simp add: char_of_eq_iff)
    ultimately show ?thesis by (metis div_mult_mod_eq)
  qed
qed

lemma distinct_index_keys: "distinct (index_keys n)"
  unfolding index_keys_def by (simp add: distinct_map inj_on_def digits_inj)

lemma length_index_keys: "length (index_keys n) = n"
  by (simp add: index_keys_def)

lemma index_keys_digits: "k \<in> set (index_keys n) \<Longrightarrow> \<forall>c \<in> set k. 48 \<le> (of_char c :: nat) \<and> (of_char c :: nat) \<le> 57"
  unfolding index_keys_def using digits_chars by auto

lemma proto_not_index: "''__proto__'' \<notin> set (index_keys n)"
proof
  assume "''__proto__'' \<in> set (index_keys n)"
  from index_keys_digits [OF this] show False by simp
qed

subsection \<open>Merging properties\<close>

lemma map_of_put: "map_of (put r k x) = (map_of r)(k \<mapsto> x)"
  by (induct r k x rule: put.induct) auto

lemma keys_put: "set (map fst (put r k x)) = insert k (set (map fst r))"
  by (induct r k x rule: put.induct) auto

lemma distinct_put: "distinct (map fst r) \<Longrightarrow> distinct (map fst (put r k x))"
  by (induct r k x rule: put.induct) (auto simp: keys_put [simplified])

lemma keys_assign:
  "set (map fst (assign r k x)) \<subseteq> insert k (set (map fst r))"
  "''__proto__'' \<notin> set (map fst r) \<Longrightarrow> ''__proto__'' \<notin> set (map fst (assign r k x))"
  "distinct (map fst r) \<Longrightarrow> distinct (map fst (assign r k x))"
  using keys_put [of r k x] distinct_put [of r k x] by (auto simp: assign_def)

lemma fold_assign:
  "''__proto__'' \<notin> set (map fst es) \<Longrightarrow> distinct (map fst es) \<Longrightarrow>
     map_of (fold (\<lambda>(k, x) t. assign t k x) es t) k =
       (case map_of es k of Some x \<Rightarrow> Some x | None \<Rightarrow> map_of t k)"
proof (induct es arbitrary: t)
  case Nil
  show ?case by simp
next
  case (Cons e es)
  obtain k' x' where e: "e = (k', x')" by (cases e)
  from Cons.prems e have p: "''__proto__'' \<notin> set (map fst es)" "distinct (map fst es)"
    "k' \<noteq> ''__proto__''" "k' \<notin> set (map fst es)"
    by auto
  from p(4) have n: "map_of es k' = None"
    by (simp add: map_of_eq_None_iff)
  show ?case
    using Cons.hyps [OF p(1,2), of "assign t k' x'"] e p(3) n
    by (auto simp: assign_def map_of_put split: option.splits)
qed

lemma sanitizeEntries_keys:
  "''__proto__'' \<notin> set (map fst result) \<Longrightarrow> distinct (map fst result) \<Longrightarrow>
     ''__proto__'' \<notin> set (map fst (snd (sanitizeEntries h seen es result)))
     \<and> distinct (map fst (snd (sanitizeEntries h seen es result)))"
proof (induct es arbitrary: seen result)
  case Nil
  then show ?case by simp
next
  case (Cons e es)
  obtain k v where e: "e = (k, v)" by (cases e)
  obtain seen1 x where s: "sanitizeValue h seen v = (seen1, x)"
    by (cases "sanitizeValue h seen v")
  from Cons.hyps [of "assign result k x" seen1]
    keys_assign(2) [OF Cons.prems(1), of k x] keys_assign(3) [OF Cons.prems(2), of k x] e s
  show ?case by simp
qed

lemma own_enumerable_keys:
  "''__proto__'' \<notin> set (map fst (own_enumerable (sanitizeObject h v)))
   \<and> distinct (map fst (own_enumerable (sanitizeObject h v)))"
proof (cases v)
  case (Fun src)
  then show ?thesis
    by (simp add: sanitizeObject_def length_index_keys distinct_index_keys proto_not_index)
next
  case (Ref a)
  show ?thesis
  proof (cases "lookup h a")
    case None
    with Ref show ?thesis by (simp add: sanitizeObject_def)
  next
    case (Some ob)
    show ?thesis
    proof (cases ob)
      case (Arr vs)
      obtain seen1 xs where s: "sanitizeMap h {a} vs = (seen1, xs)"
        by (cases "sanitizeMap h {a} vs")
      with Ref Some Arr show ?thesis
        by (simp add: sanitizeObject_def length_index_keys distinct_index_keys proto_not_index)
    next
      case (Obj ps)
      obtain seen1 r where s: "sanitizeEntries h {a} (Object_entries ps) [] = (seen1, r)"
        by (cases "sanitizeEntries h {a} (Object_entries ps) []")
      with sanitizeEntries_keys [of "[]" h "{a}" "Object_entries ps"] Ref Some Obj
      show ?thesis by (simp add: sanitizeObject_def)
    next
      case (Err n m s)
      with Ref Some show ?thesis by (simp add: sanitizeObject_def)
    qed
  qed
qed (simp_all add: sanitizeObject_def length_index_keys distinct_index_keys proto_not_index)

lemma Object_assign_lookup:
  "map_of (Object_assign target (sanitizeObject h v)) k =
     (case map_of (own_enumerable (sanitizeObject h v)) k of
        Some x \<Rightarrow> Some x
      | None \<Rightarrow> map_of target k)"
  unfolding Object_assign_def
  using own_enumerable_keys [of h v] by (intro fold_assign) simp_all

subsection \<open>The text of \<^verbatim>\<open>JSON.stringify\<close> has no line break\<close>

lemma hex_digit_no_newline: "n < 16 \<Longrightarrow> CHR 0x0A \<noteq> hex_digit n"
  using char_of_eq_iff [of "48 + n" "CHR 0x0A"] char_of_eq_iff [of "87 + n" "CHR 0x0A"]
  by (auto simp: hex_digit_def)

lemma escape_char_no_newline: "newline \<notin> set (escape_char c)"
proof -
  have "(of_char c :: nat) < 32 \<Longrightarrow> (of_char c :: nat) div 16 < 16" by simp
  moreover have "(of_char c :: nat) mod 16 < 16" by simp
  moreover have "(of_char c :: nat) \<noteq> 10 \<Longrightarrow> c \<noteq> CHR 0x0A"
    by auto
  ultimately show ?thesis
    using hex_digit_no_newline [of "(of_char c :: nat) div 16"]
      hex_digit_no_newline [of "(of_char c :: nat) mod 16"]
    by (auto simp: escape_char_def Let_def backslash_def dquote_def newline_def)
qed

lemma Quote_no_newline: "newline \<notin> set (QuoteJSONString s)"
  using escape_char_no_newline by (auto simp: QuoteJSONString_def dquote_def newline_def)

lemma digits_no_newline: "newline \<notin> set (digits n)"
  using digits_chars [of newline n] by (auto simp: newline_def)

lemma Number_no_newline: "newline \<notin> set (Number_toString i)"
  using digits_no_newline by (auto simp: Number_toString_def newline_def)

lemma join_no_newline:
  "newline \<notin> set sep \<Longrightarrow> \<forall>s \<in> set ss. newline \<notin> set s \<Longrightarrow> newline \<notin> set (join sep ss)"
  by (induct sep ss rule: join.induct) auto

lemma stringify_no_newline:
  "JSON_stringify t = Inr (Some s) \<Longrightarrow> newline \<notin> set s"
  "stringify_elements xs = Inr ss \<Longrightarrow> \<forall>s \<in> set ss. newline \<notin> set s"
  "stringify_members kvs = Inr ss \<Longrightarrow> \<forall>s \<in> set ss. newline \<notin> set s"
proof (induct t and xs and kvs arbitrary: s and ss and ss
        rule: JSON_stringify_stringify_elements_stringify_members.induct)
  case (8 xs)
  then show ?case
    by (auto simp: newline_def split: sum.splits
          dest!: join_no_newline [of "'',''", unfolded newline_def, rotated])
next
  case (9 kvs)
  then show ?case
    by (auto simp: newline_def split: sum.splits
          dest!: join_no_newline [of "'',''", unfolded newline_def, rotated])
next
  case (11 x xs)
  then show ?case
    by (auto simp: newline_def split: sum.splits option.splits)
next
  case (13 k x kvs)
  then show ?case
    using Quote_no_newline [of k]
    by (auto simp: newline_def split: sum.splits option.splits)
qed (auto simp: Quote_no_newline Number_no_newline, auto simp: newline_def)

lemma stringify_object_defined:
  "JSON_stringify (OObj kvs) = Inr r \<Longrightarrow> \<exists>line. r = Some line"
  by (auto split: sum.splits)

subsection \<open>Formatting and emission\<close>

lemma formatMessage_structured:
  "\<not> is_string message \<Longrightarrow>
     formatMessage this level c h message =
       (case JSON_stringify (sanitizeObject h message) of
          Inl e \<Rightarrow> Inl e
        | Inr m \<Rightarrow> Inr (Object_assign (envelope this level c m) (sanitizeObject h message)))"
  by (cases message) (simp_all add: formatMessage_def envelope_def Let_def split: sum.splits)

lemma own_enumerable_leaves:
  "list_all primitive (leaves t) \<Longrightarrow> list_all primitive (leaves (OObj (own_enumerable t)))"
proof (cases t)
  case (Leaf v)
  then show ?thesis by (cases v) (auto simp: list_all_iff dest!: set_zip_rightD)
next
  case (OArr xs)
  assume "list_all primitive (leaves t)"
  with OArr show ?thesis
    by (auto simp: list_all_iff dest!: set_zip_rightD)
next
  case (OObj kvs)
  assume "list_all primitive (leaves t)"
  with OObj show ?thesis by simp
qed

lemma fold_assign_leaves:
  "list_all primitive (leaves (OObj es)) \<Longrightarrow> list_all primitive (leaves (OObj t)) \<Longrightarrow>
     list_all primitive (leaves (OObj (fold (\<lambda>(k, x) t. assign t k x) es t)))"
proof (induct es arbitrary: t)
  case Nil
  then show ?case by simp
next
  case (Cons e es)
  obtain k x where e: "e = (k, x)" by (cases e)
  from Cons.prems e have x: "list_all primitive (leaves x)"
    and es: "list_all primitive (leaves (OObj es))"
    by simp_all
  from leaves_assign [of t k x] x Cons.prems(2)
  have "list_all primitive (leaves (OObj (assign t k x)))"
    by (auto simp: list_all_iff)
  from Cons.hyps [OF es this] e show ?case by simp
qed

lemma createLogMethod_returns:
  assumes "closed h" "errors_plain h" "valid h message"
  shows "\<exists>w'. createLogMethod this level c h message w = Inr w'"
proof -
  let ?san = "sanitizeObject h message"
  from assms have san: "list_all primitive (leaves ?san)"
    using sanitize_leaves(1) [of h message "{}"] by (simp add: sanitizeObject_def)
  from stringify_primitive_leaves(1) [OF san]
  obtain m where m: "JSON_stringify ?san = Inr m" ..
  have env: "list_all primitive (leaves (OObj (envelope this (LogLevel_name level) c r)))" for r
    by (cases r) (simp_all add: envelope_def)
  obtain logMessage where f: "formatMessage this (LogLevel_name level) c h message = Inr logMessage"
    and p: "list_all primitive (leaves (OObj logMessage))"
  proof (cases "is_string message")
    case True
    then obtain s where "message = Str s" by (cases message) simp_all
    then have "formatMessage this (LogLevel_name level) c h message
                 = Inr (envelope this (LogLevel_name level) c (Some s))"
      by (simp add: formatMessage_def envelope_def)
    with env that show ?thesis by blast
  next
    case False
    with m have "formatMessage this (LogLevel_name level) c h message
                 = Inr (Object_assign (envelope this (LogLevel_name level) c m) ?san)"
      by (simp add: formatMessage_structured)
    moreover have "list_all primitive
        (leaves (OObj (Object_assign (envelope this (LogLevel_name level) c m) ?san)))"
      unfolding Object_assign_def
      using own_enumerable_leaves [OF san] env by (rule fold_assign_leaves)
    ultimately show ?thesis using that by blast
  qed
  from stringify_primitive_leaves(1) [OF p]
  obtain res where "JSON_stringify (OObj logMessage) = Inr res" ..
  with f show ?thesis
    by (simp add: createLogMethod_def)
qed

text \<open>
  Claim C3. A logging method that emits is called with an input that is not a string.
  On a closed store whose Error instances have primitive fields the call returns. When
  the call returns, the message of the record is the text that \<^verbatim>\<open>JSON.stringify\<close>
  gives for the sanitized input; every top-level member of the sanitized input is a
  member of the record with the same value, also when its key is one of
  \<^verbatim>\<open>timestamp\<close>, \<^verbatim>\<open>level\<close>, \<^verbatim>\<open>message\<close>, \<^verbatim>\<open>microservice\<close>, \<^verbatim>\<open>caller\<close>, whose
  value it then replaces; every other key of the record keeps the value that
  \<^verbatim>\<open>formatMessage\<close> gave it. The record is written as one line without a line break,
  to the error stream for the level \<open>ERROR\<close> and to the output stream for the other
  levels.
\<close>

theorem C3_structured_record:
  assumes structured: "\<not> is_string message"
  shows "(closed h \<and> errors_plain h \<and> valid h message \<longrightarrow>
           (\<exists>w'. createLogMethod this level c h message w = Inr w'))
    \<and> (createLogMethod this level c h message w = Inr w' \<longrightarrow>
         (\<exists>m logMessage line.
            JSON_stringify (sanitizeObject h message) = Inr m
          \<and> formatMessage this (LogLevel_name level) c h message = Inr logMessage
          \<and> (\<forall>k x. (k, x) \<in> set (own_enumerable (sanitizeObject h message))
                \<longrightarrow> map_of logMessage k = Some x)
          \<and> (\<forall>k. k \<notin> fst ` set (own_enumerable (sanitizeObject h message))
                \<longrightarrow> map_of logMessage k
                      = map_of (envelope this (LogLevel_name level) c m) k)
          \<and> JSON_stringify (OObj logMessage) = Inr (Some line)
          \<and> newline \<notin> set line
          \<and> w' = (if level = ERROR then w\<lparr>stderr := stderr w @ [line]\<rparr>
                   else w\<lparr>stdout := stdout w @ [line]\<rparr>)))"
proof (intro conjI impI)
  assume "closed h \<and> errors_plain h \<and> valid h message"
  then show "\<exists>w'. createLogMethod this level c h message w = Inr w'"
    by (simp add: createLogMethod_returns)
next
  let ?san = "sanitizeObject h message"
  assume emitted: "createLogMethod this level c h message w = Inr w'"
  then obtain logMessage
    where f: "formatMessage this (LogLevel_name level) c h message = Inr logMessage"
    by (auto simp: createLogMethod_def split: sum.splits)
  with structured obtain m where m: "JSON_stringify ?san = Inr m"
    and r: "logMessage = Object_assign (envelope this (LogLevel_name level) c m) ?san"
    by (auto simp: formatMessage_structured split: sum.splits)
  from emitted f obtain res where o: "JSON_stringify (OObj logMessage) = Inr res"
    and w: "w' = (if rank level \<le> rank ERROR then console_error res w
                  else console_log res w)"
    by (auto simp: createLogMethod_def split: sum.splits if_splits)
  from stringify_object_defined [OF o] obtain line where l: "res = Some line" ..
  from own_enumerable_keys [of h message] have d: "distinct (map fst (own_enumerable ?san))" ..
  have merged: "map_of logMessage k = Some x" if "(k, x) \<in> set (own_enumerable ?san)" for k x
  proof -
    from d that have "map_of (own_enumerable ?san) k = Some x" by simp
    then show ?thesis by (simp add: r Object_assign_lookup)
  qed
  have kept: "map_of logMessage k = map_of (envelope this (LogLevel_name level) c m) k"
    if "k \<notin> fst ` set (own_enumerable ?san)" for k
  proof -
    from that have "map_of (own_enumerable ?san) k = None"
      by (simp add: map_of_eq_None_iff)
    then show ?thesis by (simp add: r Object_assign_lookup)
  qed
  from o have o': "JSON_stringify (OObj logMessage) = Inr (Some line)"
    unfolding l .
  then have nl: "newline \<notin> set line"
    by (rule stringify_no_newline(1))
  from w l have "w' = (if level = ERROR then w\<lparr>stderr := stderr w @ [line]\<rparr>
             else w\<lparr>stdout := stdout w @ [line]\<rparr>)"
    by (cases level) (simp_all add: console_error_def console_log_def)
  with m f merged kept o' nl
  show "\<exists>m logMessage line.
            JSON_stringify (sanitizeObject h message) = Inr m
          \<and> formatMessage this (LogLevel_name level) c h message = Inr logMessage
          \<and> (\<forall>k x. (k, x) \<in> set (own_enumerable (sanitizeObject h message))
                \<longrightarrow> map_of logMessage k = Some x)
          \<and> (\<forall>k. k \<notin> fst ` set (own_enumerable (sanitizeObject h message))
                \<longrightarrow> map_of logMessage k
                      = map_of (envelope this (LogLevel_name level) c m) k)
          \<and> JSON_stringify (OObj logMessage) = Inr (Some line)
          \<and> newline \<notin> set line
          \<and> w' = (if level = ERROR then w\<lparr>stderr := stderr w @ [line]\<rparr>
                   else w\<lparr>stdout := stdout w @ [line]\<rparr>)"
    by blast
qed

theorem C3_structured_record_witness:
  "\<not> is_string (Ref 0)
   \<and> createLogMethod (Logger ''Svc'' \<lparr>LOG_LEVEL = None, stdout = [], stderr = []\<rparr>) ERROR
       \<lparr>now = ''2024-01-01T00:00:00.000Z'', trace = None\<rparr>
       [Obj [Property (StringKey ''code'') True (Num 42),
             Property (StringKey ''level'') True (Str ''custom'')]]
       (Ref 0) \<lparr>LOG_LEVEL = None, stdout = [], stderr = []\<rparr>
     = Inr \<lparr>LOG_LEVEL = None, stdout = [],
            stderr = [''{'' @ QuoteJSONString ''timestamp'' @ '':''
                   @ QuoteJSONString ''2024-01-01T00:00:00.000Z'' @ '',''
                   @ QuoteJSONString ''level'' @ '':'' @ QuoteJSONString ''custom'' @ '',''
                   @ QuoteJSONString ''message'' @ '':''
                   @ QuoteJSONString
                       (''{'' @ QuoteJSONString ''code'' @ '':42,'' @ QuoteJSONString ''level'' @ '':''
                          @ QuoteJSONString ''custom'' @ ''}'') @ '',''
                   @ QuoteJSONString ''microservice'' @ '':'' @ QuoteJSONString ''Svc'' @ '',''
                   @ QuoteJSONString ''caller'' @ '':'' @ QuoteJSONString ''unknown'' @ '',''
                   @ QuoteJSONString ''code'' @ '':42}'']\<rparr>
   \<and> formatMessage (Logger ''Svc'' \<lparr>LOG_LEVEL = None, stdout = [], stderr = []\<rparr>) ''ERROR''
       \<lparr>now = ''2024-01-01T00:00:00.000Z'', trace = None\<rparr>
       [Obj [Property (StringKey ''code'') True (Num 42),
             Property (StringKey ''level'') True (Str ''custom'')]]
       (Ref 0)
     = Inr [(''timestamp'', Leaf (Str ''2024-01-01T00:00:00.000Z'')),
            (''level'', Leaf (Str ''custom'')),
            (''message'',
             Leaf (Str (''{'' @ QuoteJSONString ''code'' @ '':42,'' @ QuoteJSONString ''level'' @ '':''
                          @ QuoteJSONString ''custom'' @ ''}''))),
            (''microservice'', Leaf (Str ''Svc'')),
            (''caller'', Leaf (Str ''unknown'')),
            (''code'', Leaf (Num 42))]
   \<and> newline \<notin> set (''{'' @ QuoteJSONString ''timestamp'' @ '':''
                   @ QuoteJSONString ''2024-01-01T00:00:00.000Z'' @ '',''
                   @ QuoteJSONString ''level'' @ '':'' @ QuoteJSONString ''custom'' @ '',''
                   @ QuoteJSONString ''message'' @ '':''
                   @ QuoteJSONString
                       (''{'' @ QuoteJSONString ''code'' @ '':42,'' @ QuoteJSONString ''level'' @ '':''
                          @ QuoteJSONString ''custom'' @ ''}'') @ '',''
                   @ QuoteJSONString ''microservice'' @ '':'' @ QuoteJSONString ''Svc'' @ '',''
                   @ QuoteJSONString ''caller'' @ '':'' @ QuoteJSONString ''unknown'' @ '',''
                   @ QuoteJSONString ''code'' @ '':42}'')"
proof -
  let ?w = "\<lparr>LOG_LEVEL = None, stdout = [], stderr = []\<rparr>"
  let ?c = "\<lparr>now = ''2024-01-01T00:00:00.000Z'', trace = None\<rparr>"
  let ?h = "[Obj [Property (StringKey ''code'') True (Num 42),
             Property (StringKey ''level'') True (Str ''custom'')]]"
  let ?line = "''{'' @ QuoteJSONString ''timestamp'' @ '':''
                   @ QuoteJSONString ''2024-01-01T00:00:00.000Z'' @ '',''
                   @ QuoteJSONString ''level'' @ '':'' @ QuoteJSONString ''custom'' @ '',''
                   @ QuoteJSONString ''message'' @ '':''
                   @ QuoteJSONString
                       (''{'' @ QuoteJSONString ''code'' @ '':42,'' @ QuoteJSONString ''level'' @ '':''
                          @ QuoteJSONString ''custom'' @ ''}'') @ '',''
                   @ QuoteJSONString ''microservice'' @ '':'' @ QuoteJSONString ''Svc'' @ '',''
                   @ QuoteJSONString ''caller'' @ '':'' @ QuoteJSONString ''unknown'' @ '',''
                   @ QuoteJSONString ''code'' @ '':42}''"
  have s: "\<not> is_string (Ref 0)" by simp
  have e: "createLogMethod (Logger ''Svc'' ?w) ERROR ?c ?h (Ref 0) ?w
             = Inr \<lparr>LOG_LEVEL = None, stdout = [], stderr = [?line]\<rparr>"
    by code_simp
  have f: "formatMessage (Logger ''Svc'' ?w) ''ERROR'' ?c ?h (Ref 0)
     = Inr [(''timestamp'', Leaf (Str ''2024-01-01T00:00:00.000Z'')),
            (''level'', Leaf (Str ''custom'')),
            (''message'',
             Leaf (Str (''{'' @ QuoteJSONString ''code'' @ '':42,'' @ QuoteJSONString ''level'' @ '':''
                          @ QuoteJSONString ''custom'' @ ''}''))),
            (''microservice'', Leaf (Str ''Svc'')),
            (''caller'', Leaf (Str ''unknown'')),
            (''code'', Leaf (Num 42))]"
    by code_simp
  from C3_structured_record [OF s, of ?h "Logger ''Svc'' ?w" ERROR ?c ?w
      "\<lparr>LOG_LEVEL = None, stdout = [], stderr = [?line]\<rparr>"] e
  obtain line where n: "newline \<notin> set line"
    and w: "\<lparr>LOG_LEVEL = None, stdout = [], stderr = [?line]\<rparr> =
            (if ERROR = ERROR then ?w\<lparr>stderr := stderr ?w @ [line]\<rparr>
             else ?w\<lparr>stdout := stdout ?w @ [line]\<rparr>)"
    by blast
  from w have l: "line = ?line" by simp
  from n have "newline \<notin> set ?line" unfolding l .
  with s e f show ?thesis by (simp only: simp_thms)
qed

subsection \<open>Complex errors\<close>













end
